theory Spec2Isabelle
  imports Main "HOL-Library.Word"
begin

unbundle bit_operations_syntax

section \<open>Build-time constants and machine types\<close>

text \<open>
  The superslab header of \<^verbatim>\<open>src/mem/superslab.h\<close> is written against constants that
  are declared in other headers: the number of slabs per superslab (\<^verbatim>\<open>SLAB_COUNT\<close>, a
  power of two whose indices fit in a byte), the slab size (\<^verbatim>\<open>SLAB_SIZE = 1 << SLAB_BITS\<close>),
  the size of the header structure, the page size, and whether the build defines
  \<^verbatim>\<open>NDEBUG\<close>.  They are collected in a record and passed to every operation that
  mentions them.
\<close>

type_synonym uint8_t = "8 word"
type_synonym uint16_t = "16 word"
type_synonym size_t = "64 word"
type_synonym sizeclass_t = "64 word"

record config =
  SLAB_COUNT_BITS :: nat
  SLAB_BITS :: nat
  sizeof_Superslab :: size_t
  OS_PAGE_SIZE :: size_t
  NDEBUG :: bool

definition SLAB_COUNT :: "config \<Rightarrow> size_t" where
  "SLAB_COUNT c = push_bit (SLAB_COUNT_BITS c) 1"

definition SLAB_SIZE :: "config \<Rightarrow> size_t" where
  "SLAB_SIZE c = push_bit (SLAB_BITS c) 1"

text \<open>
  A configuration is admissible when there is at least one regular slab besides the
  short slab, slab indices fit in the \<^verbatim>\<open>uint8_t\<close> that stores them, and a whole
  superslab (\<^verbatim>\<open>SLAB_COUNT * SLAB_SIZE\<close> bytes) fits in the address space.
\<close>

definition valid_config :: "config \<Rightarrow> bool" where
  "valid_config c \<longleftrightarrow>
     1 \<le> SLAB_COUNT_BITS c \<and> SLAB_COUNT_BITS c \<le> 8 \<and>
     SLAB_BITS c + SLAB_COUNT_BITS c \<le> 64"

section \<open>Data model\<close>

text \<open>
  Modelled from the spec: class \<^verbatim>\<open>Metaslab\<close> (\<^verbatim>\<open>metaslab.h\<close>) is not part of the
  source at hand.  The header uses four things of it: the stored size class, the stored
  relative \<^verbatim>\<open>next\<close> offset, the mutator that initialises the slot's object free list
  (\<^verbatim>\<open>free_queue.init()\<close>) and the mutator that marks the slot as fully handed out
  (\<^verbatim>\<open>set_full()\<close>).  The two mutators are recorded as flags; a default-constructed or
  zero-filled record has both flags clear and both numbers zero.  The two numbers are
  bytes: the header casts the size class to \<^verbatim>\<open>uint8_t\<close> before it stores it and reads
  and writes \<^verbatim>\<open>next\<close> through \<^verbatim>\<open>uint8_t\<close> variables.  The query \<^verbatim>\<open>is_unused()\<close>
  answers whether the slot is in its default unused state: it holds for a
  default-constructed record and no longer once the slot has been marked as fully
  handed out.
\<close>

record metaslab =
  free_queue_init :: bool
  full :: bool
  sizeclass :: uint8_t
  "next" :: uint8_t

definition Metaslab :: metaslab where
  "Metaslab = \<lparr> free_queue_init = False, full = False, sizeclass = 0, next = 0 \<rparr>"

definition fq_init :: "metaslab \<Rightarrow> metaslab" where
  "fq_init m = m\<lparr> free_queue_init := True \<rparr>"

definition set_full :: "metaslab \<Rightarrow> metaslab" where
  "set_full m = m\<lparr> full := True \<rparr>"

definition is_unused :: "metaslab \<Rightarrow> bool" where
  "is_unused m \<longleftrightarrow> \<not> full m"

text \<open>
  Modelled from the spec: the kind tag and the owner field are inherited from
  \<^verbatim>\<open>Allocslab\<close> (\<^verbatim>\<open>allocslab.h\<close>), which is not part of the source at hand; the header
  only compares the tag with \<^verbatim>\<open>Fresh\<close> and \<^verbatim>\<open>Super\<close>.
\<close>

datatype SlabKind = Fresh | Large | Medium | Super

datatype Status = Full | Available | OnlyShortSlabAvailable | Empty

datatype Action = NoSlabReturn | NoStatusChange | StatusChange

record superslab =
  kind :: SlabKind
  allocator :: size_t
  head :: uint8_t
  used :: uint16_t
  meta :: "metaslab list"

text \<open>
  Modelled from the spec: \<^verbatim>\<open>Mod<SLAB_COUNT, uint8_t>\<close> and
  \<^verbatim>\<open>ModArray<SLAB_COUNT, Metaslab>\<close> come from \<^verbatim>\<open>ds/helpers.h\<close>, which is not part of
  the source at hand.  The spec describes \<^verbatim>\<open>head\<close> as an index modulo \<^verbatim>\<open>SLAB_COUNT\<close>.
  In the model an assignment stores the byte and every read yields the stored byte
  masked with \<^verbatim>\<open>SLAB_COUNT - 1\<close>, the mask that the walk in \<^verbatim>\<open>init\<close> applies by hand.
  The array masks the index of every access in the same way, so with \<^verbatim>\<open>SLAB_COUNT\<close>
  records no access is out of range.
\<close>

definition Mod_read :: "config \<Rightarrow> uint8_t \<Rightarrow> uint8_t" where
  "Mod_read c v = ucast ((ucast v :: size_t) AND (SLAB_COUNT c - 1))"

definition get_head :: "config \<Rightarrow> superslab \<Rightarrow> uint8_t" where
  "get_head c s = Mod_read c (head s)"

definition ModArray_index :: "config \<Rightarrow> size_t \<Rightarrow> nat" where
  "ModArray_index c i = unat (i AND (SLAB_COUNT c - 1))"

definition meta_at :: "config \<Rightarrow> superslab \<Rightarrow> size_t \<Rightarrow> metaslab" where
  "meta_at c s i = meta s ! ModArray_index c i"

definition meta_modify :: "config \<Rightarrow> size_t \<Rightarrow> (metaslab \<Rightarrow> metaslab) \<Rightarrow> superslab \<Rightarrow> superslab" where
  "meta_modify c i f s =
     s\<lparr> meta := (meta s)[ModArray_index c i := f (meta s ! ModArray_index c i)] \<rparr>"

section \<open>Status queries\<close>

definition is_empty :: "superslab \<Rightarrow> bool" where
  "is_empty s \<longleftrightarrow> used s = 0"

definition is_full :: "config \<Rightarrow> superslab \<Rightarrow> bool" where
  "is_full c s \<longleftrightarrow> (ucast (used s) :: size_t) = push_bit 1 (SLAB_COUNT c - 1) + 1"

definition is_almost_full :: "config \<Rightarrow> superslab \<Rightarrow> bool" where
  "is_almost_full c s \<longleftrightarrow> (ucast (used s) :: size_t) \<ge> push_bit 1 (SLAB_COUNT c - 1)"

definition get_status :: "config \<Rightarrow> superslab \<Rightarrow> Status" where
  "get_status c s =
     (if \<not> is_almost_full c s then
        (if \<not> is_empty s then Available else Empty)
      else if \<not> is_full c s then OnlyShortSlabAvailable
      else Full)"

section \<open>Slab allocation and deallocation\<close>

datatype error = Abort | AssertFailed

text \<open>
  Modelled from the spec: the macro \<^verbatim>\<open>SNMALLOC_ASSERT\<close> is not part of the source at
  hand.  The spec has invariant violations surface only in debug builds, as an immediate
  abort, and go unchecked in release builds.  An assertion whose condition fails
  therefore ends the operation with an error unless the build defines \<^verbatim>\<open>NDEBUG\<close>;
  otherwise the rest of the operation runs.
\<close>

definition SNMALLOC_ASSERT :: "config \<Rightarrow> bool \<Rightarrow> error + 'a \<Rightarrow> error + 'a" where
  "SNMALLOC_ASSERT c cond rest = (if \<not> NDEBUG c \<and> \<not> cond then Inl AssertFailed else rest)"

text \<open>
  Modelled from the spec: \<^verbatim>\<open>pointer_offset\<close> and \<^verbatim>\<open>pointer_diff\<close> are not part of the
  source at hand.  The spec has the slot index as the address difference from the
  header shifted right by \<^verbatim>\<open>SLAB_BITS\<close>, and the slab as the slot's base address.
  Addresses are \<^verbatim>\<open>size_t\<close> values, \<^verbatim>\<open>pointer_offset\<close> adds and \<^verbatim>\<open>pointer_diff\<close>
  subtracts the header's address from the slab's.
\<close>

definition slab_to_index :: "config \<Rightarrow> size_t \<Rightarrow> size_t \<Rightarrow> error + size_t" where
  "slab_to_index c this slab =
     (let res = drop_bit (SLAB_BITS c) (slab - this)
      in SNMALLOC_ASSERT c (res = ucast (ucast res :: uint8_t))
           (Inr (ucast (ucast res :: uint8_t))))"

definition get_meta :: "config \<Rightarrow> size_t \<Rightarrow> superslab \<Rightarrow> size_t \<Rightarrow> error + metaslab" where
  "get_meta c this s slab =
     (case slab_to_index c this slab of
        Inl e \<Rightarrow> Inl e
      | Inr i \<Rightarrow> Inr (meta_at c s i))"

definition alloc_slab :: "config \<Rightarrow> size_t \<Rightarrow> superslab \<Rightarrow> sizeclass_t \<Rightarrow> size_t \<times> superslab" where
  "alloc_slab c self s sc =
     (let h = get_head c s;
          slab = self + push_bit (SLAB_BITS c) (ucast h :: size_t);
          n = next (meta_at c s (ucast h));
          s1 = meta_modify c (ucast h)
                 (\<lambda>m. (set_full (fq_init m))\<lparr> sizeclass := ucast sc \<rparr>) s;
          s2 = s1\<lparr> head := h + n + 1 \<rparr>;
          s3 = s2\<lparr> used := used s2 + 2 \<rparr>
      in (slab, s3))"

definition alloc_short_slab :: "config \<Rightarrow> size_t \<Rightarrow> superslab \<Rightarrow> sizeclass_t \<Rightarrow> size_t \<times> superslab" where
  "alloc_short_slab c self s sc =
     (if used s AND 1 = 1 then alloc_slab c self s sc
      else
        (let s1 = meta_modify c 0
                    (\<lambda>m. (set_full (fq_init m))\<lparr> sizeclass := ucast sc \<rparr>) s;
             s2 = s1\<lparr> used := used s1 + 1 \<rparr>
         in (self, s2)))"

definition dealloc_slab ::
  "config \<Rightarrow> size_t \<Rightarrow> superslab \<Rightarrow> size_t \<Rightarrow> error + Action \<times> superslab" where
  "dealloc_slab c this s slab =
     (case slab_to_index c this slab of
        Inl e \<Rightarrow> Inl e
      | Inr i \<Rightarrow>
          (let index = (ucast i :: uint8_t);
               n = get_head c s - index - 1;
               s1 = meta_modify c (ucast index) (\<lambda>m. m\<lparr> sizeclass := 0 \<rparr>) s;
               s2 = meta_modify c (ucast index) (\<lambda>m. m\<lparr> next := n \<rparr>) s1;
               s3 = s2\<lparr> head := index \<rparr>;
               was_almost_full = is_almost_full c s3;
               s4 = s3\<lparr> used := used s3 - 2 \<rparr>
           in SNMALLOC_ASSERT c (is_unused (meta_at c s4 (ucast index)))
                (if was_almost_full \<or> is_empty s4 then Inr (StatusChange, s4)
                 else Inr (NoStatusChange, s4))))"

definition dealloc_short_slab :: "config \<Rightarrow> superslab \<Rightarrow> error + Action \<times> superslab" where
  "dealloc_short_slab c s =
     (let was_full = is_full c s;
          s1 = s\<lparr> used := used s - 1 \<rparr>
      in SNMALLOC_ASSERT c (is_unused (meta_at c s1 0))
           (if was_full \<or> is_empty s1 then Inr (StatusChange, s1)
            else Inr (NoStatusChange, s1)))"

section \<open>Initialisation and its consistency walk\<close>

text \<open>
  One step of the debug walk of \<^verbatim>\<open>init\<close>: the cursor is a copy of \<^verbatim>\<open>head\<close> (so
  it is read through the mask), the sum is taken at full width and masked with
  \<^verbatim>\<open>SLAB_COUNT - 1\<close> before it is stored back.
\<close>

definition chain_next :: "config \<Rightarrow> superslab \<Rightarrow> uint8_t \<Rightarrow> uint8_t" where
  "chain_next c s cur =
     (let cv = Mod_read c cur
      in ucast (((ucast cv :: size_t) + ucast (next (meta_at c s (ucast cv))) + 1)
                AND (SLAB_COUNT c - 1)))"

definition debug_walk :: "config \<Rightarrow> superslab \<Rightarrow> uint8_t" where
  "debug_walk c s =
     ((chain_next c s) ^^ unat (SLAB_COUNT c - ucast (used s) - 1)) (head s)"

definition reset_meta :: "config \<Rightarrow> superslab \<Rightarrow> superslab" where
  "reset_meta c s =
     fold (\<lambda>i. meta_modify c (of_nat i) (\<lambda>_. Metaslab)) [0 ..< unat (SLAB_COUNT c)] s"

text \<open>
  \<^verbatim>\<open>init\<close> sets the owner, rebuilds the header unless it already is that of a
  superslab smaller than a page, and in a debug build checks it: it calls \<^verbatim>\<open>abort()\<close>
  when the walk does not stand on slot 0, and then asserts of every slot in turn, from
  slot 0 upwards, that it is unused.
\<close>

definition init :: "config \<Rightarrow> superslab \<Rightarrow> size_t \<Rightarrow> error + superslab" where
  "init c s alloc =
     (let s1 = s\<lparr> allocator := alloc \<rparr>;
          s2 = (if kind s1 \<noteq> Super \<or> sizeof_Superslab c \<ge> OS_PAGE_SIZE c then
                  (let s' = (if kind s1 \<noteq> Fresh then reset_meta c (s1\<lparr> used := 0 \<rparr>)
                             else s1)
                   in s'\<lparr> kind := Super, head := 1 \<rparr>)
                else s1)
      in if NDEBUG c then Inr s2
         else if Mod_read c (debug_walk c s2) \<noteq> 0 then Inl Abort
         else foldr (\<lambda>i. SNMALLOC_ASSERT c (is_unused (meta_at c s2 (of_nat i))))
                [0 ..< unat (SLAB_COUNT c)] (Inr s2))"

section \<open>The free-slot chain\<close>

text \<open>
  The slots visited from a cursor until the walk reaches slot 0, at most \<open>fuel\<close> of
  them.  The free list of a superslab is the walk from \<^verbatim>\<open>head\<close>; a chain that ends
  at slot 0 has fewer than \<^verbatim>\<open>SLAB_COUNT\<close> members, so that much fuel shows the whole
  of it.
\<close>

fun chain_from :: "config \<Rightarrow> superslab \<Rightarrow> nat \<Rightarrow> uint8_t \<Rightarrow> uint8_t list" where
  "chain_from c s 0 cur = []"
| "chain_from c s (Suc k) cur =
     (if Mod_read c cur = 0 then []
      else Mod_read c cur # chain_from c s k (chain_next c s cur))"

definition free_chain :: "config \<Rightarrow> superslab \<Rightarrow> uint8_t list" where
  "free_chain c s = chain_from c s (unat (SLAB_COUNT c)) (head s)"

text \<open>
  The encoding of \<^verbatim>\<open>used\<close>: twice the number of regular slabs in use, plus one when
  the short slab is in use.
\<close>

definition used_inv :: "config \<Rightarrow> superslab \<Rightarrow> bool" where
  "used_inv c s \<longleftrightarrow> unat (used s) \<le> 2 * (unat (SLAB_COUNT c) - 1) + 1"

text \<open>
  The free-list invariant: the array holds one record per slot, and the chain from
  \<^verbatim>\<open>head\<close> reaches slot 0 after exactly as many slots as there are regular slabs not
  in use.
\<close>

definition free_list_inv :: "config \<Rightarrow> superslab \<Rightarrow> bool" where
  "free_list_inv c s \<longleftrightarrow>
     length (meta s) = unat (SLAB_COUNT c) \<and>
     length (free_chain c s) + unat (drop_bit 1 (used s)) + 1 = unat (SLAB_COUNT c)"

text \<open>The zero-filled header that \<^verbatim>\<open>init\<close> points at the first regular slab.\<close>

definition zero_superslab :: "config \<Rightarrow> superslab" where
  "zero_superslab c =
     \<lparr> kind = Fresh, allocator = 0, head = 0, used = 0,
       meta = replicate (unat (SLAB_COUNT c)) Metaslab \<rparr>"

section \<open>Short size classes\<close>

text \<open>
  Modelled from the spec: \<^verbatim>\<open>size_to_sizeclass_const\<close> (\<^verbatim>\<open>sizeclass.h\<close>) is not part of
  the source at hand.  The comment in \<^verbatim>\<open>is_short_sizeclass\<close> says that it rounds up
  and returns the smallest class that could contain the given size.  The table of the
  classes' object sizes is a parameter; when no class is large enough the result is the
  number of classes.
\<close>

definition size_to_sizeclass_const :: "nat list \<Rightarrow> size_t \<Rightarrow> sizeclass_t" where
  "size_to_sizeclass_const sizes sz = of_nat (length (takeWhile (\<lambda>n. n < unat sz) sizes))"

definition is_short_sizeclass :: "config \<Rightarrow> nat list \<Rightarrow> sizeclass_t \<Rightarrow> bool" where
  "is_short_sizeclass c sizes sc =
     (let h = size_to_sizeclass_const sizes (SLAB_SIZE c - sizeof_Superslab c)
      in sc < h)"

section \<open>Concrete configurations and states\<close>

text \<open>
  The configuration of the spec's threshold scenario: four slots, slot 0 the short slab
  and slots 1 to 3 regular, in a debug build.  The header sits at address \<open>65536\<close>, a
  multiple of the superslab size \<open>4 * 16384\<close>.
\<close>

definition cfg4 :: config where
  "cfg4 = \<lparr> SLAB_COUNT_BITS = 2, SLAB_BITS = 14, sizeof_Superslab = 256,
            OS_PAGE_SIZE = 4096, NDEBUG = False \<rparr>"

text \<open>The same configuration in a release build.\<close>

definition cfg4_release :: config where
  "cfg4_release = cfg4\<lparr> NDEBUG := True \<rparr>"

definition self0 :: size_t where
  "self0 = 65536"

text \<open>A fresh zero-filled region after \<^verbatim>\<open>init\<close>.\<close>

definition st_init :: superslab where
  "st_init = (zero_superslab cfg4)\<lparr> allocator := 7, kind := Super, head := 1 \<rparr>"

text \<open>After one regular slab has been handed out.\<close>

definition st_one_alloc :: superslab where
  "st_one_alloc = snd (alloc_slab cfg4 self0 st_init 5)"

text \<open>
  After slots 1 and 2 have been handed out and slot 1 has been returned, in a release
  build: slot 2 is the only one in use and \<^verbatim>\<open>head\<close> is below it.
\<close>

definition st_low_free :: superslab where
  "st_low_free =
     \<lparr> kind = Super, allocator = 7, head = 1, used = 2,
       meta = [Metaslab,
               \<lparr> free_queue_init = True, full = True, sizeclass = 0, next = 1 \<rparr>,
               \<lparr> free_queue_init = True, full = True, sizeclass = 5, next = 0 \<rparr>,
               Metaslab] \<rparr>"

text \<open>After only the short slab has been handed out, and after every slab has.\<close>

definition st_short :: superslab where
  "st_short = snd (alloc_short_slab cfg4 self0 st_init 3)"

definition st_full :: superslab where
  "st_full =
     snd (alloc_short_slab cfg4 self0
       (snd (alloc_slab cfg4 self0
         (snd (alloc_slab cfg4 self0
           (snd (alloc_slab cfg4 self0 st_init 5)) 5)) 5)) 3)"

text \<open>A table of object sizes, one per size class, for the short-slab threshold.\<close>

definition class_sizes :: "nat list" where
  "class_sizes = [16, 32, 64, 128, 256, 512, 1024, 2048, 4096, 8192, 16384, 32768]"

section \<open>Masks, casts and bounds\<close>

lemma unat_2p64: "n < 64 \<Longrightarrow> unat (2 ^ n :: 64 word) = 2 ^ n"
proof -
  assume n: "n < 64"
  have "unat (2 ^ n :: 64 word) = unat (word_of_nat (2 ^ n) :: 64 word)" by simp
  also have "\<dots> = 2 ^ n mod 2 ^ 64" by (simp only: unat_of_nat) simp
  also have "\<dots> = 2 ^ n"
  proof -
    have "(2::nat) ^ n < 2 ^ 64" using n by (rule power_strict_increasing) simp
    then show ?thesis by simp
  qed
  finally show ?thesis .
qed

lemma unat_SLAB_COUNT: "valid_config c \<Longrightarrow> unat (SLAB_COUNT c) = 2 ^ SLAB_COUNT_BITS c"
  unfolding SLAB_COUNT_def valid_config_def
  by (simp add: unat_2p64)

lemma SLAB_COUNT_mask: "SLAB_COUNT c - 1 = mask (SLAB_COUNT_BITS c)"
  by (simp add: SLAB_COUNT_def mask_eq_exp_minus_1)

lemma pow_bits_le: "valid_config c \<Longrightarrow> (2::nat) ^ SLAB_COUNT_BITS c \<le> 256"
proof -
  assume "valid_config c"
  then have "SLAB_COUNT_BITS c \<le> 8" by (simp add: valid_config_def)
  then have "(2::nat) ^ SLAB_COUNT_BITS c \<le> 2 ^ 8" by (rule power_increasing) simp
  then show ?thesis by simp
qed

lemma pow_bits_ge: "valid_config c \<Longrightarrow> (2::nat) \<le> 2 ^ SLAB_COUNT_BITS c"
proof -
  assume "valid_config c"
  then have "1 \<le> SLAB_COUNT_BITS c" by (simp add: valid_config_def)
  then have "(2::nat) ^ 1 \<le> 2 ^ SLAB_COUNT_BITS c" by (rule power_increasing) simp
  then show ?thesis by simp
qed

lemma Mod_read_take_bit: "valid_config c \<Longrightarrow> Mod_read c v = take_bit (SLAB_COUNT_BITS c) v"
  unfolding Mod_read_def SLAB_COUNT_mask
  apply (simp flip: take_bit_eq_mask)
  apply (rule bit_word_eqI)
  apply (auto simp add: bit_simps valid_config_def)
  done

lemma Mod_read_idem: "valid_config c \<Longrightarrow> Mod_read c (Mod_read c v) = Mod_read c v"
  by (simp add: Mod_read_take_bit)

lemma ModArray_index_ucast:
  "valid_config c \<Longrightarrow> ModArray_index c (ucast (v :: uint8_t)) = unat (take_bit (SLAB_COUNT_BITS c) v)"
  unfolding ModArray_index_def SLAB_COUNT_mask
  apply (simp flip: take_bit_eq_mask)
  apply (simp add: unsigned_take_bit_eq unsigned_ucast_eq valid_config_def min_def)
  done

lemma ModArray_index_0: "ModArray_index c 0 = 0"
  by (simp add: ModArray_index_def)

lemma unat_take_bit8: "unat (take_bit n (w :: uint8_t)) = unat w mod 2 ^ n"
  unfolding unsigned_take_bit_eq by (simp add: take_bit_eq_mod)

lemma unat_add8: "unat (a + b + 1 :: uint8_t) = (unat a + unat b + 1) mod 256"
  by (simp add: unat_word_ariths mod_simps)

lemma unat_head_minus:
  "unat (h - i - 1 :: uint8_t) = (256 + unat h - unat i - 1) mod 256"
proof -
  have "unat i < 2 ^ 8" using unsigned_less [of i] by simp
  then have le: "unat i + 1 \<le> 256 + unat h" by simp
  have "(of_nat (256 + unat h - unat i - 1) :: uint8_t) = of_nat (256 + unat h - (unat i + 1))"
    by simp
  also have "\<dots> = of_nat (256 + unat h) - of_nat (unat i + 1)"
    using le by (rule of_nat_diff)
  also have "\<dots> = h - i - 1" by simp
  finally have "h - i - 1 = (of_nat (256 + unat h - unat i - 1) :: uint8_t)" by simp
  then have "unat (h - i - 1) = unat (of_nat (256 + unat h - unat i - 1) :: uint8_t)" by simp
  then show ?thesis by (simp only: unat_of_nat) simp
qed

lemma unat_Mod_read:
  "valid_config c \<Longrightarrow> unat (Mod_read c v) = unat v mod 2 ^ SLAB_COUNT_BITS c"
  by (simp add: Mod_read_take_bit unat_take_bit8)

lemma dvd_256:
  assumes "valid_config c"
  shows "(2::nat) ^ SLAB_COUNT_BITS c dvd 256"
proof -
  have "SLAB_COUNT_BITS c \<le> 8" using assms by (simp add: valid_config_def)
  then have "(2::nat) ^ SLAB_COUNT_BITS c dvd 2 ^ 8" by (rule le_imp_power_dvd)
  then show ?thesis by simp
qed

lemma mod_256_mod_N:
  assumes "valid_config c"
  shows "(a mod 256) mod 2 ^ SLAB_COUNT_BITS c = (a::nat) mod 2 ^ SLAB_COUNT_BITS c"
  using dvd_256 [OF assms] by (rule mod_mod_cancel)

lemma mod_N_shift:
  assumes "valid_config c" and "i < 2 ^ SLAB_COUNT_BITS c"
  shows "(256 + h - i - 1) mod 2 ^ SLAB_COUNT_BITS c
         = (2 ^ SLAB_COUNT_BITS c + h - i - 1) mod (2 ^ SLAB_COUNT_BITS c :: nat)"
proof -
  let ?N = "(2::nat) ^ SLAB_COUNT_BITS c"
  obtain q where q: "256 = ?N * q" using dvd_256 [OF assms(1)] by (auto simp: dvd_def)
  have "0 < q" using q by (cases q) simp_all
  then obtain q' where q': "q = Suc q'" by (cases q) simp_all
  have "256 + h - i - 1 = (?N + h - i - 1) + ?N * q'"
    using assms(2) q q' by simp
  then show ?thesis by simp
qed

lemma next_offset_reduced_iff:
  fixes N h i :: nat
  assumes "N dvd 256" and "2 \<le> N" and "h < N" and "i < N"
  shows "(256 + h - i - 1) mod 256 = (N + h - i - 1) mod N \<longleftrightarrow> N = 256 \<or> i < h"
proof -
  have N: "N \<le> 256" using assms(1) by (rule dvd_imp_le) simp
  show ?thesis
  proof (cases "i < h")
    case True
    then have a: "256 + h - i - 1 = (h - i - 1) + 256" and b: "N + h - i - 1 = (h - i - 1) + N"
      by simp_all
    have "h - i - 1 < N" using assms(3) by simp
    then show ?thesis using True N by (simp only: a b mod_add_self2) simp
  next
    case False
    then have l: "256 + h - i - 1 < 256" and r: "N + h - i - 1 < N" using assms(2) by simp_all
    have "256 + h - i - 1 = N + h - i - 1 \<longleftrightarrow> N = 256" using False assms(4) N by arith
    then show ?thesis using False l r by simp
  qed
qed

lemma Mod_read_eq_0_iff:
  "valid_config c \<Longrightarrow> Mod_read c v = 0 \<longleftrightarrow> unat v mod 2 ^ SLAB_COUNT_BITS c = 0"
  by (simp add: unat_Mod_read flip: unat_eq_0)

lemma Mod_read_eq_of_nat:
  assumes "valid_config c" and "unat v mod 2 ^ SLAB_COUNT_BITS c = j"
  shows "Mod_read c v = of_nat j"
proof -
  have "j < 2 ^ SLAB_COUNT_BITS c" using assms(2) by auto
  then have "j < 256" using pow_bits_le [OF assms(1)] by simp
  then have "unat (of_nat j :: uint8_t) = j" by (simp add: unat_of_nat)
  then show ?thesis using assms by (simp add: word_unat_eq_iff unat_Mod_read)
qed

lemma ModArray_index_less:
  "valid_config c \<Longrightarrow> ModArray_index c (ucast (v :: uint8_t)) < unat (SLAB_COUNT c)"
  by (simp add: ModArray_index_ucast unat_SLAB_COUNT unat_take_bit8)

lemma ucast_down_plus: "(ucast (x + y :: 64 word) :: 8 word) = ucast x + ucast y"
proof -
  have d: "(256::int) dvd 18446744073709551616" by simp
  have aux: "a mod 18446744073709551616 mod 256 = a mod 256" for a :: int
    by (rule mod_mod_cancel [OF d])
  have "(x mod 18446744073709551616 + y mod 18446744073709551616) mod 256 = (x + y) mod 256"
    for x y :: int
    by (metis aux mod_add_eq)
  then show ?thesis
    by transfer (simp add: take_bit_eq_mod aux)
qed

lemma ucast_take_bit_down: "(ucast (take_bit n (x :: 64 word)) :: 8 word) = take_bit n (ucast x)"
  apply (rule bit_word_eqI)
  apply (auto simp add: bit_simps)
  done

lemma ucast_up_down: "(ucast (ucast (x :: 8 word) :: 64 word) :: 8 word) = x"
  apply (rule bit_word_eqI)
  apply (auto simp add: bit_simps)
  done

lemma unat_of_nat_small64: "n < 1024 \<Longrightarrow> unat (of_nat n :: 64 word) = n"
  by (simp add: unat_of_nat)

lemma unat_of_nat_len64: "n < 2 ^ 64 \<Longrightarrow> unat (of_nat n :: 64 word) = n"
  by (simp add: unat_of_nat)

lemma unat_SLAB_COUNT_minus_1:
  assumes "valid_config c"
  shows "unat (SLAB_COUNT c - 1) = 2 ^ SLAB_COUNT_BITS c - 1"
proof -
  have "(1::nat) \<le> 2 ^ SLAB_COUNT_BITS c" by simp
  then have "(of_nat (2 ^ SLAB_COUNT_BITS c - 1) :: 64 word) = of_nat (2 ^ SLAB_COUNT_BITS c) - 1"
    by (simp only: of_nat_diff of_nat_1)
  then have eq: "SLAB_COUNT c - 1 = (of_nat (2 ^ SLAB_COUNT_BITS c - 1) :: 64 word)"
    by (simp add: SLAB_COUNT_def)
  show ?thesis using pow_bits_le [OF assms]
    by (simp only: eq) (rule unat_of_nat_small64, arith)
qed

lemma unat_ucast_used: "unat (ucast (u :: uint16_t) :: size_t) = unat u"
proof -
  have "unat u < 2 ^ 16" using unsigned_less [of u] by simp
  then show ?thesis by (simp add: unsigned_ucast_eq take_bit_nat_eq_self_iff)
qed

lemma unat_used_plus:
  "unat (u :: uint16_t) + k < 65536 \<Longrightarrow> unat (u + of_nat k) = unat u + k"
  by (simp add: unat_word_ariths unat_of_nat)

lemma unat_used_minus:
  "k \<le> unat (u :: uint16_t) \<Longrightarrow> unat (u - of_nat k) = unat u - k"
  by (simp add: le_unat_uoi unat_sub word_le_nat_alt)

lemma unat_half_used: "unat (drop_bit 1 (u :: uint16_t)) = unat u div 2"
  unfolding unat_drop_bit_eq by (simp add: drop_bit_eq_div)

lemma used_odd_iff: "(u :: uint16_t) AND 1 = 1 \<longleftrightarrow> odd (unat u)"
proof -
  have "u AND 1 = 1 \<longleftrightarrow> odd u" by (simp add: and_one_eq odd_iff_mod_2_eq_one)
  also have "\<dots> \<longleftrightarrow> bit u 0" by (simp add: bit_0)
  also have "\<dots> \<longleftrightarrow> bit (unat u) 0" by (simp add: bit_unsigned_iff)
  also have "\<dots> \<longleftrightarrow> odd (unat u)" by (simp add: bit_0)
  finally show ?thesis .
qed

section \<open>Status as a function of \<^verbatim>\<open>used\<close>\<close>

lemma almost_full_bound:
  assumes "valid_config c"
  shows "push_bit 1 (SLAB_COUNT c - 1) = (of_nat (2 * (2 ^ SLAB_COUNT_BITS c - 1)) :: 64 word)"
proof -
  have "(1::nat) \<le> 2 ^ SLAB_COUNT_BITS c" by simp
  then have "(of_nat (2 ^ SLAB_COUNT_BITS c - 1) :: 64 word) = of_nat (2 ^ SLAB_COUNT_BITS c) - 1"
    by (simp only: of_nat_diff of_nat_1)
  then have eq: "SLAB_COUNT c - 1 = (of_nat (2 ^ SLAB_COUNT_BITS c - 1) :: 64 word)"
    by (simp add: SLAB_COUNT_def)
  show ?thesis by (simp only: eq push_bit_eq_mult) (simp add: SLAB_COUNT_def)
qed

lemma unat_almost_full_bound:
  assumes "valid_config c"
  shows "unat (push_bit 1 (SLAB_COUNT c - 1) :: 64 word) = 2 * (2 ^ SLAB_COUNT_BITS c - 1)"
  using pow_bits_le [OF assms]
  by (simp only: almost_full_bound [OF assms]) (rule unat_of_nat_small64, arith)

lemma unat_full_bound:
  assumes "valid_config c"
  shows "unat (push_bit 1 (SLAB_COUNT c - 1) + 1 :: 64 word) = 2 * (2 ^ SLAB_COUNT_BITS c - 1) + 1"
proof -
  have "push_bit 1 (SLAB_COUNT c - 1) + 1 = (of_nat (2 * (2 ^ SLAB_COUNT_BITS c - 1) + 1) :: 64 word)"
    by (simp only: almost_full_bound [OF assms] of_nat_add of_nat_1)
  then show ?thesis using pow_bits_le [OF assms]
    by (simp only:) (rule unat_of_nat_small64, arith)
qed

lemma is_full_iff:
  "valid_config c \<Longrightarrow> is_full c s \<longleftrightarrow> unat (used s) = 2 * (2 ^ SLAB_COUNT_BITS c - 1) + 1"
  unfolding is_full_def word_unat_eq_iff unat_ucast_used
  by (simp only: unat_full_bound)

lemma is_almost_full_iff:
  "valid_config c \<Longrightarrow> is_almost_full c s \<longleftrightarrow> 2 * (2 ^ SLAB_COUNT_BITS c - 1) \<le> unat (used s)"
  unfolding is_almost_full_def word_le_nat_alt unat_ucast_used
  by (simp only: unat_almost_full_bound)

lemma is_empty_iff: "is_empty s \<longleftrightarrow> unat (used s) = 0"
  by (simp add: is_empty_def unat_eq_0)

lemma get_status_nat:
  assumes "valid_config c"
  shows "get_status c s =
     (if unat (used s) < 2 * (2 ^ SLAB_COUNT_BITS c - 1) then
        (if unat (used s) \<noteq> 0 then Available else Empty)
      else if unat (used s) \<noteq> 2 * (2 ^ SLAB_COUNT_BITS c - 1) + 1 then OnlyShortSlabAvailable
      else Full)"
  unfolding get_status_def is_full_iff [OF assms] is_almost_full_iff [OF assms] is_empty_iff
  by auto

text \<open>
  Claim C1.  When \<^verbatim>\<open>used\<close> is \<open>2 * k + sh\<close> with at most \<^verbatim>\<open>SLAB_COUNT - 1\<close> regular
  slabs in use and \<open>sh\<close> the short-slab bit, every status query is determined by
  \<^verbatim>\<open>used\<close> alone: \<^verbatim>\<open>is_empty\<close> holds exactly at 0, \<^verbatim>\<open>is_full\<close> exactly at
  \<open>2 * (SLAB_COUNT - 1) + 1\<close>, \<^verbatim>\<open>is_almost_full\<close> exactly when all regular slabs are in
  use, and \<^verbatim>\<open>get_status\<close> follows the table Empty / Available /
  OnlyShortSlabAvailable / Full.
\<close>

theorem status_queries_of_used:
  assumes "valid_config c"
    and "unat (used s) = 2 * k + sh"
    and "k \<le> unat (SLAB_COUNT c) - 1"
    and "sh \<le> 1"
  shows "(is_empty s \<longleftrightarrow> unat (used s) = 0) \<and>
         (is_full c s \<longleftrightarrow> unat (used s) = 2 * (unat (SLAB_COUNT c) - 1) + 1) \<and>
         (is_almost_full c s \<longleftrightarrow> k = unat (SLAB_COUNT c) - 1) \<and>
         (get_status c s = Empty \<longleftrightarrow> unat (used s) = 0) \<and>
         (get_status c s = Available \<longleftrightarrow>
            0 < unat (used s) \<and> unat (used s) < 2 * (unat (SLAB_COUNT c) - 1)) \<and>
         (get_status c s = OnlyShortSlabAvailable \<longleftrightarrow>
            unat (used s) = 2 * (unat (SLAB_COUNT c) - 1)) \<and>
         (get_status c s = Full \<longleftrightarrow> unat (used s) = 2 * (unat (SLAB_COUNT c) - 1) + 1)"
proof -
  define N :: nat where "N = 2 ^ SLAB_COUNT_BITS c"
  have N: "unat (SLAB_COUNT c) = N" "2 \<le> N"
    using unat_SLAB_COUNT [OF assms(1)] pow_bits_ge [OF assms(1)] by (simp_all add: N_def)
  have f: "is_full c s \<longleftrightarrow> unat (used s) = 2 * (N - 1) + 1"
    using is_full_iff [OF assms(1)] by (simp add: N_def)
  have a: "is_almost_full c s \<longleftrightarrow> 2 * (N - 1) \<le> unat (used s)"
    using is_almost_full_iff [OF assms(1)] by (simp add: N_def)
  have k: "k \<le> N - 1" using assms(3) N by simp
  show ?thesis
    unfolding get_status_def N f a is_empty_iff
    using assms(2,4) k N(2) by auto
qed

theorem status_queries_of_used_witness:
  "valid_config cfg4 \<and> unat (used st_full) = 2 * 3 + 1 \<and>
   (3::nat) \<le> unat (SLAB_COUNT cfg4) - 1 \<and> (1::nat) \<le> 1 \<and>
   get_status cfg4 st_full = Full \<and> is_almost_full cfg4 st_full \<and> is_full cfg4 st_full"
proof -
  have v: "valid_config cfg4" by code_simp
  have u: "unat (used st_full) = 2 * 3 + 1" by code_simp
  have k: "(3::nat) \<le> unat (SLAB_COUNT cfg4) - 1" by code_simp
  have sh: "(1::nat) \<le> 1" by simp
  note t = status_queries_of_used [OF v u k sh]
  have e: "unat (used st_full) = 2 * (unat (SLAB_COUNT cfg4) - 1) + 1" by code_simp
  have c1: "get_status cfg4 st_full = Full" using t e by blast
  have e2: "(3::nat) = unat (SLAB_COUNT cfg4) - 1" by code_simp
  have c2: "is_almost_full cfg4 st_full" using t e2 by blast
  have c3: "is_full cfg4 st_full" using t e by blast
  show ?thesis using v u k sh c1 c2 c3 by blast
qed

section \<open>What each operation leaves behind\<close>

lemma is_almost_full_cong [simp]:
  "is_almost_full c (s\<lparr> meta := ms \<rparr>) = is_almost_full c s"
  "is_almost_full c (s\<lparr> head := hh \<rparr>) = is_almost_full c s"
  by (simp_all add: is_almost_full_def)

lemma meta_modify_sel [simp]:
  "used (meta_modify c i f s) = used s"
  "head (meta_modify c i f s) = head s"
  "kind (meta_modify c i f s) = kind s"
  "allocator (meta_modify c i f s) = allocator s"
  "length (meta (meta_modify c i f s)) = length (meta s)"
  "is_almost_full c' (meta_modify c i f s) = is_almost_full c' s"
  by (simp_all add: meta_modify_def)

lemma meta_modify_meta:
  "meta (meta_modify c i f s) = (meta s)[ModArray_index c i := f (meta s ! ModArray_index c i)]"
  by (simp add: meta_modify_def)

lemma alloc_slab_fst:
  "fst (alloc_slab c self s sc) = self + push_bit (SLAB_BITS c) (ucast (get_head c s))"
  by (simp add: alloc_slab_def Let_def)

lemma alloc_slab_head:
  "head (snd (alloc_slab c self s sc))
     = get_head c s + next (meta_at c s (ucast (get_head c s))) + 1"
  by (simp add: alloc_slab_def Let_def)

lemma alloc_slab_used: "used (snd (alloc_slab c self s sc)) = used s + 2"
  by (simp add: alloc_slab_def Let_def)

lemma alloc_slab_meta:
  "meta (snd (alloc_slab c self s sc)) =
     (meta s)[ModArray_index c (ucast (get_head c s)) :=
       (set_full (fq_init (meta s ! ModArray_index c (ucast (get_head c s)))))
         \<lparr> sizeclass := ucast sc \<rparr>]"
  by (simp add: alloc_slab_def Let_def meta_modify_meta)

lemma alloc_slab_other [simp]:
  "kind (snd (alloc_slab c self s sc)) = kind s"
  "allocator (snd (alloc_slab c self s sc)) = allocator s"
  "length (meta (snd (alloc_slab c self s sc))) = length (meta s)"
  by (simp_all add: alloc_slab_def Let_def)

lemma slab_to_index_of_slab:
  assumes "valid_config c" and "unat (index :: uint8_t) < unat (SLAB_COUNT c)"
  shows "slab_to_index c this (this + push_bit (SLAB_BITS c) (ucast index)) = Inr (ucast index)"
proof -
  let ?b = "SLAB_COUNT_BITS c"
  have "unat index < 2 ^ ?b" using assms by (simp add: unat_SLAB_COUNT)
  then have "take_bit ?b (unat index) = unat index" by (simp add: take_bit_nat_eq_self_iff)
  then have i: "take_bit ?b index = index"
    by (simp add: word_unat_eq_iff unsigned_take_bit_eq)
  have "drop_bit (SLAB_BITS c) (push_bit (SLAB_BITS c) (ucast (take_bit ?b index) :: size_t))
        = ucast (take_bit ?b index)"
    using assms(1) by (intro bit_word_eqI) (auto simp add: bit_simps valid_config_def)
  then have "drop_bit (SLAB_BITS c) (push_bit (SLAB_BITS c) (ucast index :: size_t)) = ucast index"
    by (simp only: i)
  then show ?thesis
    by (simp add: slab_to_index_def Let_def SNMALLOC_ASSERT_def ucast_up_down)
qed

lemma slab_to_index_Inr:
  assumes "slab_to_index c this slab = Inr i"
  shows "ucast (ucast i :: uint8_t) = i"
  using assms
  by (auto simp add: slab_to_index_def Let_def SNMALLOC_ASSERT_def ucast_up_down
      split: if_splits)

lemma slab_to_index_NDEBUG:
  "NDEBUG c \<Longrightarrow> \<exists>i. slab_to_index c this slab = Inr i"
  by (simp add: slab_to_index_def Let_def SNMALLOC_ASSERT_def)

lemma is_unused_after_dealloc:
  "is_unused (meta_at c (meta_modify c i (\<lambda>m. m\<lparr> next := n \<rparr>)
                           (meta_modify c i (\<lambda>m. m\<lparr> sizeclass := 0 \<rparr>) s)
                         \<lparr> head := h, used := u \<rparr>) i)
   = is_unused (meta_at c s i)"
  by (cases "ModArray_index c i < length (meta s)")
     (simp_all add: meta_at_def meta_modify_def is_unused_def list_update_beyond)

lemma dealloc_slab_state:
  assumes "slab_to_index c this slab = Inr i"
  shows "dealloc_slab c this s slab =
           SNMALLOC_ASSERT c (is_unused (meta_at c s i))
             (Inr (if is_almost_full c s \<or> used s - 2 = 0 then StatusChange else NoStatusChange,
                   s\<lparr> meta := (meta s)[ModArray_index c i :=
                                   (meta s ! ModArray_index c i)
                                     \<lparr> sizeclass := 0,
                                       next := get_head c s - ucast i - 1 \<rparr>],
                      head := ucast i, used := used s - 2 \<rparr>))"
proof -
  have i: "ucast (ucast i :: uint8_t) = i" by (rule slab_to_index_Inr [OF assms])
  have m: "meta_modify c i (\<lambda>m. m\<lparr> next := n \<rparr>) (meta_modify c i (\<lambda>m. m\<lparr> sizeclass := 0 \<rparr>) s)
           = s\<lparr> meta := (meta s)[ModArray_index c i :=
                          (meta s ! ModArray_index c i)\<lparr> sizeclass := 0, next := n \<rparr>] \<rparr>" for n
    by (cases "ModArray_index c i < length (meta s)")
       (simp_all add: meta_modify_def list_update_beyond)
  show ?thesis
    unfolding dealloc_slab_def assms
    by (simp add: Let_def i is_unused_after_dealloc is_empty_def SNMALLOC_ASSERT_def m)
qed

lemma dealloc_slab_char:
  assumes "slab_to_index c this slab = Inr (ucast (index :: uint8_t))"
  shows "\<exists>a s'. dealloc_slab c this s slab =
                  (if \<not> NDEBUG c \<and> \<not> is_unused (meta_at c s (ucast index))
                   then Inl AssertFailed else Inr (a, s')) \<and>
                a = (if is_almost_full c s \<or> is_empty s' then StatusChange else NoStatusChange) \<and>
                used s' = used s - 2 \<and> head s' = index \<and>
                meta s' = (meta s)[ModArray_index c (ucast index) :=
                             (meta s ! ModArray_index c (ucast index))
                               \<lparr> sizeclass := 0, next := get_head c s - index - 1 \<rparr>] \<and>
                kind s' = kind s \<and> allocator s' = allocator s"
proof -
  let ?s' = "s\<lparr> meta := (meta s)[ModArray_index c (ucast index) :=
                         (meta s ! ModArray_index c (ucast index))
                           \<lparr> sizeclass := 0, next := get_head c s - index - 1 \<rparr>],
                head := index, used := used s - 2 \<rparr>"
  let ?a = "if is_almost_full c s \<or> used s - 2 = 0 then StatusChange else NoStatusChange"
  have "dealloc_slab c this s slab =
          (if \<not> NDEBUG c \<and> \<not> is_unused (meta_at c s (ucast index))
           then Inl AssertFailed else Inr (?a, ?s'))"
    unfolding dealloc_slab_state [OF assms] SNMALLOC_ASSERT_def
    by (simp add: ucast_up_down)
  moreover have "?a = (if is_almost_full c s \<or> is_empty ?s' then StatusChange else NoStatusChange)"
    by (simp add: is_empty_def)
  moreover have "used ?s' = used s - 2" "head ?s' = index" "kind ?s' = kind s"
    "allocator ?s' = allocator s"
    "meta ?s' = (meta s)[ModArray_index c (ucast index) :=
                             (meta s ! ModArray_index c (ucast index))
                               \<lparr> sizeclass := 0, next := get_head c s - index - 1 \<rparr>]"
    by simp_all
  ultimately show ?thesis by blast
qed

lemma dealloc_slab_returned:
  assumes "dealloc_slab c this s slab = Inr r"
  shows "used (snd r) = used s - 2 \<and>
         fst r = (if is_almost_full c s \<or> is_empty (snd r) then StatusChange else NoStatusChange)"
proof -
  obtain i where i: "slab_to_index c this slab = Inr i"
    using assms by (cases "slab_to_index c this slab") (simp_all add: dealloc_slab_def)
  show ?thesis
    using assms unfolding dealloc_slab_state [OF i] SNMALLOC_ASSERT_def
    by (auto simp add: is_empty_def split: if_splits)
qed

lemma dealloc_slab_returns:
  assumes "slab_to_index c this slab = Inr i" and "NDEBUG c \<or> is_unused (meta_at c s i)"
  shows "\<exists>r. dealloc_slab c this s slab = Inr r"
  using assms(2) unfolding dealloc_slab_state [OF assms(1)] SNMALLOC_ASSERT_def by auto

lemma dealloc_short_slab_char:
  "\<exists>a s'. dealloc_short_slab c s =
            (if \<not> NDEBUG c \<and> \<not> is_unused (meta_at c s 0)
             then Inl AssertFailed else Inr (a, s')) \<and>
          a = (if is_full c s \<or> is_empty s' then StatusChange else NoStatusChange) \<and>
          s' = s\<lparr> used := used s - 1 \<rparr>"
proof -
  let ?s' = "s\<lparr> used := used s - 1 \<rparr>"
  let ?a = "if is_full c s \<or> is_empty ?s' then StatusChange else NoStatusChange"
  have "dealloc_short_slab c s =
          (if \<not> NDEBUG c \<and> \<not> is_unused (meta_at c s 0)
           then Inl AssertFailed else Inr (?a, ?s'))"
    unfolding dealloc_short_slab_def SNMALLOC_ASSERT_def Let_def
    by (simp add: meta_at_def)
  then show ?thesis by blast
qed

lemma alloc_short_slab_free:
  assumes "even (unat (used s))"
  shows "alloc_short_slab c self s sc =
           (self, (meta_modify c 0 (\<lambda>m. (set_full (fq_init m))\<lparr> sizeclass := ucast sc \<rparr>) s)
                    \<lparr> used := used s + 1 \<rparr>)"
  using assms by (simp add: alloc_short_slab_def used_odd_iff Let_def)


lemma assert_loop:
  "foldr (\<lambda>i. SNMALLOC_ASSERT c (P i)) xs (Inr r)
   = (if \<not> NDEBUG c \<and> \<not> list_all P xs then Inl AssertFailed else Inr r)"
proof (induction xs)
  case Nil
  then show ?case by simp
next
  case (Cons x xs)
  show ?case
    unfolding foldr.simps o_apply Cons.IH
    by (simp add: SNMALLOC_ASSERT_def)
qed

lemma ModArray_index_bound:
  assumes "valid_config c"
  shows "ModArray_index c i < unat (SLAB_COUNT c)"
proof -
  have "unat (take_bit (SLAB_COUNT_BITS c) i) < 2 ^ SLAB_COUNT_BITS c"
    unfolding unsigned_take_bit_eq by simp
  then show ?thesis
    unfolding ModArray_index_def SLAB_COUNT_mask unat_SLAB_COUNT [OF assms]
    by (simp flip: take_bit_eq_mask)
qed

lemma ModArray_index_of_nat:
  assumes "valid_config c" and "i < unat (SLAB_COUNT c)"
  shows "ModArray_index c (of_nat i) = i"
proof -
  have lt: "i < 2 ^ SLAB_COUNT_BITS c" using assms by (simp add: unat_SLAB_COUNT)
  also have "(2::nat) ^ SLAB_COUNT_BITS c \<le> 256" by (rule pow_bits_le [OF assms(1)])
  finally have "i < 2 ^ 64" by simp
  then have u: "unat (of_nat i :: size_t) = i" by (simp add: unat_of_nat take_bit_nat_eq_self_iff)
  have "unat (take_bit (SLAB_COUNT_BITS c) (of_nat i :: size_t)) = i"
    unfolding unsigned_take_bit_eq u using lt by (simp add: take_bit_nat_eq_self_iff)
  then show ?thesis
    unfolding ModArray_index_def SLAB_COUNT_mask by (simp flip: take_bit_eq_mask)
qed

section \<open>Walking the chain\<close>

lemma chain_next_take_bit:
  "valid_config c \<Longrightarrow>
   chain_next c s cur =
     take_bit (SLAB_COUNT_BITS c)
       (take_bit (SLAB_COUNT_BITS c) cur
        + next (meta s ! unat (take_bit (SLAB_COUNT_BITS c) cur)) + 1)"
  unfolding chain_next_def Let_def meta_at_def SLAB_COUNT_mask
  apply (simp add: ModArray_index_ucast flip: take_bit_eq_mask)
  apply (simp add: Mod_read_take_bit ucast_take_bit_down ucast_down_plus ucast_up_down)
  done

lemma unat_chain_next:
  assumes "valid_config c"
  shows "unat (chain_next c s cur) =
         (unat cur mod 2 ^ SLAB_COUNT_BITS c
          + unat (next (meta s ! (unat cur mod 2 ^ SLAB_COUNT_BITS c))) + 1)
         mod 2 ^ SLAB_COUNT_BITS c"
  unfolding chain_next_take_bit [OF assms] unat_take_bit8 unat_add8
  by (simp only: mod_256_mod_N [OF assms])

lemma chain_next_Mod_read:
  assumes "valid_config c"
  shows "chain_next c s (Mod_read c cur) = chain_next c s cur"
  by (simp add: chain_next_take_bit [OF assms] Mod_read_take_bit [OF assms])

lemma chain_next_same_next:
  assumes "valid_config c"
    and "\<And>i. i < 2 ^ SLAB_COUNT_BITS c \<Longrightarrow> next (meta s ! i) = next (meta s' ! i)"
  shows "chain_next c s cur = chain_next c s' cur"
  by (simp add: chain_next_take_bit [OF assms(1)] assms(2) unat_take_bit8)

lemma chain_from_Mod_read:
  assumes "valid_config c" and "Mod_read c cur = Mod_read c cur'"
  shows "chain_from c s k cur = chain_from c s k cur'"
proof (cases k)
  case 0
  then show ?thesis by simp
next
  case (Suc k')
  have "chain_next c s cur = chain_next c s cur'"
    using assms(2) chain_next_Mod_read [OF assms(1), of s cur]
      chain_next_Mod_read [OF assms(1), of s cur'] by simp
  then show ?thesis using Suc assms(2) by simp
qed

lemma chain_from_cong:
  assumes "\<And>x. chain_next c s x = chain_next c s' x"
  shows "chain_from c s k cur = chain_from c s' k cur"
  by (induction k arbitrary: cur) (simp_all add: assms)

lemma chain_from_cong_on:
  assumes v: "valid_config c"
  shows "(\<And>x. x \<in> set (chain_from c s k cur) \<Longrightarrow> chain_next c s' x = chain_next c s x) \<Longrightarrow>
         chain_from c s' k cur = chain_from c s k cur"
proof (induction k arbitrary: cur)
  case 0
  then show ?case by simp
next
  case (Suc k)
  show ?case
  proof (cases "Mod_read c cur = 0")
    case True
    then show ?thesis by simp
  next
    case False
    then have "Mod_read c cur \<in> set (chain_from c s (Suc k) cur)" by simp
    then have "chain_next c s' (Mod_read c cur) = chain_next c s (Mod_read c cur)"
      by (rule Suc.prems)
    then have n: "chain_next c s' cur = chain_next c s cur"
      by (simp only: chain_next_Mod_read [OF v])
    have "chain_from c s' k (chain_next c s cur) = chain_from c s k (chain_next c s cur)"
      using False by (intro Suc.IH Suc.prems) simp
    then show ?thesis using False n by simp
  qed
qed

lemma chain_from_members:
  assumes "valid_config c"
  shows "x \<in> set (chain_from c s k cur) \<Longrightarrow> x \<noteq> 0 \<and> Mod_read c x = x"
  by (induction k arbitrary: cur) (auto simp add: Mod_read_idem [OF assms] split: if_splits)

lemma chain_from_more_fuel:
  "length (chain_from c s k x) < k \<Longrightarrow> k \<le> k' \<Longrightarrow> chain_from c s k' x = chain_from c s k x"
proof (induction k arbitrary: x k')
  case 0
  then show ?case by simp
next
  case (Suc k)
  then obtain j where j: "k' = Suc j" by (cases k') simp_all
  show ?case
  proof (cases "Mod_read c x = 0")
    case True
    then show ?thesis by (simp add: j)
  next
    case False
    then have "length (chain_from c s k (chain_next c s x)) < k" using Suc.prems(1) by simp
    then have "chain_from c s j (chain_next c s x) = chain_from c s k (chain_next c s x)"
      using Suc.prems(2) j by (intro Suc.IH) simp_all
    then show ?thesis using False by (simp add: j)
  qed
qed

lemma chain_from_less_fuel:
  "length (chain_from c s k' x) < k \<Longrightarrow> k \<le> k' \<Longrightarrow> chain_from c s k x = chain_from c s k' x"
proof (induction k arbitrary: x k')
  case 0
  then show ?case by simp
next
  case (Suc k)
  then obtain j where j: "k' = Suc j" by (cases k') simp_all
  show ?case
  proof (cases "Mod_read c x = 0")
    case True
    then show ?thesis by (simp add: j)
  next
    case False
    then have "length (chain_from c s j (chain_next c s x)) < k" using Suc.prems(1) by (simp add: j)
    then have "chain_from c s k (chain_next c s x) = chain_from c s j (chain_next c s x)"
      using Suc.prems(2) j by (intro Suc.IH) simp_all
    then show ?thesis using False by (simp add: j)
  qed
qed

lemma chain_from_funpow:
  "length (chain_from c s k x) = n \<Longrightarrow> n < k \<Longrightarrow> Mod_read c (((chain_next c s) ^^ n) x) = 0"
proof (induction k arbitrary: x n)
  case 0
  then show ?case by simp
next
  case (Suc k)
  show ?case
  proof (cases "Mod_read c x = 0")
    case True
    then show ?thesis using Suc.prems by simp
  next
    case False
    then obtain m where m: "n = Suc m" "length (chain_from c s k (chain_next c s x)) = m"
      using Suc.prems(1) by (cases n) auto
    then have "Mod_read c (((chain_next c s) ^^ m) (chain_next c s x)) = 0"
      using Suc.prems(2) by (intro Suc.IH) simp_all
    then show ?thesis by (simp add: m(1) funpow_swap1)
  qed
qed

lemma free_list_inv_nat:
  "free_list_inv c s \<longleftrightarrow>
     length (meta s) = unat (SLAB_COUNT c) \<and>
     length (free_chain c s) + unat (used s) div 2 + 1 = unat (SLAB_COUNT c)"
  unfolding free_list_inv_def unat_half_used ..

lemma free_list_inv_walk:
  assumes "valid_config c" and "free_list_inv c s"
  shows "Mod_read c (((chain_next c s) ^^ (unat (SLAB_COUNT c) - unat (drop_bit 1 (used s)) - 1))
                      (head s)) = 0"
proof -
  have "length (free_chain c s) = unat (SLAB_COUNT c) - unat (used s) div 2 - 1"
    using assms(2) unfolding free_list_inv_nat by linarith
  moreover have "unat (SLAB_COUNT c) - unat (used s) div 2 - 1 < unat (SLAB_COUNT c)"
    using pow_bits_ge [OF assms(1)] by (simp add: unat_SLAB_COUNT [OF assms(1)])
  ultimately show ?thesis
    unfolding free_chain_def unat_half_used by (rule chain_from_funpow)
qed

lemma free_list_inv_used_inv:
  assumes "free_list_inv c s"
  shows "used_inv c s"
proof -
  have "unat (used s) div 2 + 1 \<le> unat (SLAB_COUNT c)"
    using assms by (simp add: free_list_inv_nat)
  then show ?thesis unfolding used_inv_def by linarith
qed

subsection \<open>The zero-filled header\<close>

lemma zero_chain_from:
  assumes v: "valid_config c"
    and z: "\<forall>i < 2 ^ SLAB_COUNT_BITS c. next (meta s ! i) = 0"
  shows "1 \<le> j \<Longrightarrow> j \<le> 2 ^ SLAB_COUNT_BITS c \<Longrightarrow>
         unat cur mod 2 ^ SLAB_COUNT_BITS c = j mod 2 ^ SLAB_COUNT_BITS c \<Longrightarrow>
         2 ^ SLAB_COUNT_BITS c - j \<le> fuel \<Longrightarrow>
         chain_from c s fuel cur = map of_nat [j ..< 2 ^ SLAB_COUNT_BITS c]"
proof (induction fuel arbitrary: j cur)
  case 0
  then show ?case by simp
next
  case (Suc fuel)
  let ?N = "(2::nat) ^ SLAB_COUNT_BITS c"
  show ?case
  proof (cases "j = ?N")
    case True
    then have "Mod_read c cur = 0" using Suc.prems(3) by (simp add: Mod_read_eq_0_iff [OF v])
    then show ?thesis using True by simp
  next
    case False
    then have lt: "j < ?N" using Suc.prems(2) by simp
    then have m: "unat cur mod ?N = j" using Suc.prems(3) by simp
    have r: "Mod_read c cur = of_nat j" by (rule Mod_read_eq_of_nat [OF v m])
    have nz: "Mod_read c cur \<noteq> 0"
      using m Suc.prems(1) by (simp add: Mod_read_eq_0_iff [OF v])
    have nx: "unat (chain_next c s cur) mod ?N = Suc j mod ?N"
      using z lt by (simp add: unat_chain_next [OF v] m)
    have "chain_from c s fuel (chain_next c s cur) = map of_nat [Suc j ..< ?N]"
      using Suc.prems(4) lt nx by (intro Suc.IH) simp_all
    then show ?thesis using nz r lt by (simp add: upt_conv_Cons)
  qed
qed

lemma zero_funpow:
  assumes v: "valid_config c"
    and z: "\<forall>i < 2 ^ SLAB_COUNT_BITS c. next (meta s ! i) = 0"
  shows "unat (((chain_next c s) ^^ k) cur) mod 2 ^ SLAB_COUNT_BITS c
         = (unat cur + k) mod 2 ^ SLAB_COUNT_BITS c"
proof (induction k)
  case 0
  then show ?case by simp
next
  case (Suc k)
  let ?N = "(2::nat) ^ SLAB_COUNT_BITS c"
  let ?x = "((chain_next c s) ^^ k) cur"
  have "unat (chain_next c s ?x) mod ?N = (unat ?x mod ?N + 1) mod ?N"
    using z by (simp add: unat_chain_next [OF v])
  also have "\<dots> = ((unat cur + k) mod ?N + 1) mod ?N" by (simp only: Suc.IH)
  also have "\<dots> = (unat cur + Suc k) mod ?N" by (simp add: mod_simps)
  finally show ?case by simp
qed

lemma init_fresh_inv:
  assumes "valid_config c"
  shows "free_list_inv c ((zero_superslab c)\<lparr> allocator := a, kind := Super, head := 1 \<rparr>)"
proof -
  let ?t = "(zero_superslab c)\<lparr> allocator := a, kind := Super, head := 1 \<rparr>"
  let ?N = "(2::nat) ^ SLAB_COUNT_BITS c"
  have N: "unat (SLAB_COUNT c) = ?N" by (rule unat_SLAB_COUNT [OF assms])
  have ge: "2 \<le> ?N" by (rule pow_bits_ge [OF assms])
  have z: "\<forall>i < ?N. next (meta ?t ! i) = 0"
    by (simp add: zero_superslab_def N Metaslab_def)
  have one: "unat (1 :: uint8_t) mod ?N = 1 mod ?N" by simp
  have "chain_from c ?t ?N 1 = map of_nat [1 ..< ?N]"
    using ge by (intro zero_chain_from [OF assms z] one) simp_all
  then have "length (free_chain c ?t) = ?N - 1" by (simp add: free_chain_def N)
  then show ?thesis using ge by (simp add: free_list_inv_nat N zero_superslab_def)
qed

text \<open>
  Claim C2.  With every \<^verbatim>\<open>next\<close> field zero and \<^verbatim>\<open>head = 1\<close>, the chain from
  \<^verbatim>\<open>head\<close> is the list of all regular slots 1, 2, ..., \<^verbatim>\<open>SLAB_COUNT - 1\<close> in
  ascending order, and the walk stands on slot 0 after \<^verbatim>\<open>SLAB_COUNT - 1\<close> steps.  So
  \<^verbatim>\<open>init\<close> on a fresh zero-filled region only sets the owner, the kind and
  \<^verbatim>\<open>head\<close>, touches no metadata record, and its consistency walk does not abort.
\<close>

theorem zero_filled_meta_is_free_list:
  assumes "valid_config c"
    and "length (meta s) = unat (SLAB_COUNT c)"
    and "\<forall>m \<in> set (meta s). next m = 0"
    and "head s = 1"
  shows "free_chain c s = map of_nat [1 ..< unat (SLAB_COUNT c)] \<and>
         Mod_read c (((chain_next c s) ^^ (unat (SLAB_COUNT c) - 1)) (head s)) = 0 \<and>
         init c (zero_superslab c) a
           = Inr ((zero_superslab c)\<lparr> allocator := a, kind := Super, head := 1 \<rparr>)"
proof -
  let ?N = "(2::nat) ^ SLAB_COUNT_BITS c"
  have N: "unat (SLAB_COUNT c) = ?N" by (rule unat_SLAB_COUNT [OF assms(1)])
  have ge: "2 \<le> ?N" by (rule pow_bits_ge [OF assms(1)])
  have z: "\<forall>i < ?N. next (meta s ! i) = 0"
    using assms(2,3) N by simp
  have one: "unat (1 :: uint8_t) mod ?N = 1 mod ?N" by simp
  have "chain_from c s ?N 1 = map of_nat [1 ..< ?N]"
    using ge by (intro zero_chain_from [OF assms(1) z] one) simp_all
  then have chain: "free_chain c s = map of_nat [1 ..< unat (SLAB_COUNT c)]"
    by (simp add: free_chain_def N assms(4))
  have "unat (((chain_next c s) ^^ (?N - 1)) 1) mod ?N = (unat (1 :: uint8_t) + (?N - 1)) mod ?N"
    by (rule zero_funpow [OF assms(1) z])
  also have "\<dots> = 0" using ge by simp
  finally have walk: "Mod_read c (((chain_next c s) ^^ (unat (SLAB_COUNT c) - 1)) (head s)) = 0"
    by (simp add: Mod_read_eq_0_iff [OF assms(1)] N assms(4))
  let ?t = "(zero_superslab c)\<lparr> allocator := a, kind := Super, head := 1 \<rparr>"
  have zt: "\<forall>i < ?N. next (meta ?t ! i) = 0"
    by (simp add: zero_superslab_def N Metaslab_def)
  have cnt: "unat (SLAB_COUNT c - ucast (used ?t) - 1) = ?N - 1"
    by (simp add: zero_superslab_def unat_SLAB_COUNT_minus_1 [OF assms(1)])
  have "unat (((chain_next c ?t) ^^ (?N - 1)) 1) mod ?N = (unat (1 :: uint8_t) + (?N - 1)) mod ?N"
    by (rule zero_funpow [OF assms(1) zt])
  also have "\<dots> = 0" using ge by simp
  finally have "Mod_read c (debug_walk c ?t) = 0"
    unfolding debug_walk_def cnt by (simp add: Mod_read_eq_0_iff [OF assms(1)])
  moreover have "(zero_superslab c)\<lparr> allocator := a \<rparr>\<lparr> kind := Super, head := 1 \<rparr> = ?t"
    by simp
  moreover have "list_all (\<lambda>i. is_unused (meta_at c ?t (of_nat i))) [0 ..< unat (SLAB_COUNT c)]"
    by (simp add: list_all_iff meta_at_def zero_superslab_def ModArray_index_bound [OF assms(1)]
          Metaslab_def is_unused_def)
  ultimately have "init c (zero_superslab c) a = Inr ?t"
    by (simp add: init_def Let_def zero_superslab_def assert_loop)
  with chain walk show ?thesis by simp
qed

theorem zero_filled_meta_is_free_list_witness:
  "valid_config cfg4 \<and> length (meta st_init) = unat (SLAB_COUNT cfg4) \<and>
   map next (meta st_init) = [0, 0, 0, 0] \<and> head st_init = 1 \<and>
   free_chain cfg4 st_init = [1, 2, 3]"
proof -
  have v: "valid_config cfg4" by code_simp
  have l: "length (meta st_init) = unat (SLAB_COUNT cfg4)" by code_simp
  have n: "map next (meta st_init) = [0, 0, 0, 0]" by code_simp
  have "set (map next (meta st_init)) = {0}" by (simp only: n) simp
  then have z: "\<forall>m \<in> set (meta st_init). next m = 0" by auto
  have h: "head st_init = 1" by code_simp
  have "free_chain cfg4 st_init = map of_nat [1 ..< unat (SLAB_COUNT cfg4)]"
    using zero_filled_meta_is_free_list [OF v l z h] by blast
  moreover have "map of_nat [1 ..< unat (SLAB_COUNT cfg4)] = ([1, 2, 3] :: uint8_t list)"
    by code_simp
  ultimately have "free_chain cfg4 st_init = [1, 2, 3]" by (simp only:)
  then show ?thesis using v l n h by blast
qed


section \<open>Regular slabs\<close>

lemma alloc_slab_preserves_inv:
  assumes v: "valid_config c" and inv: "free_list_inv c s" and naf: "\<not> is_almost_full c s"
  shows "get_head c s \<noteq> 0 \<and>
         free_chain c s = get_head c s # free_chain c (snd (alloc_slab c self s sc)) \<and>
         free_list_inv c (snd (alloc_slab c self s sc))"
proof -
  let ?b = "SLAB_COUNT_BITS c"
  let ?N = "unat (SLAB_COUNT c)"
  let ?h = "get_head c s"
  let ?s1 = "snd (alloc_slab c self s sc)"
  have N: "?N = 2 ^ ?b" by (rule unat_SLAB_COUNT [OF v])
  have N2: "2 \<le> ?N" using pow_bits_ge [OF v] by (simp add: N)
  have len: "length (meta s) = ?N" using inv by (simp add: free_list_inv_def)
  have fl: "length (free_chain c s) + unat (used s) div 2 + 1 = ?N"
    using inv by (simp add: free_list_inv_nat)
  have ul: "unat (used s) < 2 * (?N - 1)"
    using naf by (simp add: is_almost_full_iff [OF v] N)
  then have ne: "free_chain c s \<noteq> []" using fl by auto
  obtain k where k: "?N = Suc k" using N2 by (cases ?N) simp_all
  have hnz: "Mod_read c (head s) \<noteq> 0"
    using ne by (auto simp add: free_chain_def k)
  have fc: "free_chain c s = ?h # chain_from c s k (chain_next c s (head s))"
    using hnz by (simp add: free_chain_def k get_head_def)
  have h: "?h = take_bit ?b (head s)"
    by (simp add: get_head_def Mod_read_take_bit [OF v])
  have hi: "take_bit ?b ?h = ?h" by (simp add: h)
  have mi: "ModArray_index c (ucast ?h) = unat ?h"
    by (simp add: ModArray_index_ucast [OF v] hi)
  have m1: "meta ?s1 = (meta s)[unat ?h := (set_full (fq_init (meta s ! unat ?h)))
                                    \<lparr> sizeclass := ucast sc \<rparr>]"
    by (simp add: alloc_slab_meta mi)
  have nx: "next (meta ?s1 ! i) = next (meta s ! i)" for i
    by (cases "i = unat ?h"; cases "unat ?h < length (meta s)")
       (simp_all add: m1 set_full_def fq_init_def list_update_beyond)
  have step: "chain_next c ?s1 x = chain_next c s x" for x
    by (rule chain_next_same_next [OF v]) (rule nx)
  have "head ?s1 = ?h + next (meta s ! unat ?h) + 1"
    by (simp only: alloc_slab_head meta_at_def mi)
  then have "Mod_read c (head ?s1) = take_bit ?b (?h + next (meta s ! unat ?h) + 1)"
    by (simp only: Mod_read_take_bit [OF v])
  also have "\<dots> = chain_next c s (head s)"
    by (simp add: chain_next_take_bit [OF v] h)
  also have "\<dots> = Mod_read c (chain_next c s (head s))"
    by (simp add: chain_next_take_bit [OF v] Mod_read_take_bit [OF v])
  finally have hd: "Mod_read c (head ?s1) = Mod_read c (chain_next c s (head s))" .
  have short: "length (chain_from c s k (chain_next c s (head s))) < k"
    using fl fc k ul by simp
  have "free_chain c ?s1 = chain_from c s ?N (head ?s1)"
    unfolding free_chain_def by (rule chain_from_cong) (rule step)
  also have "\<dots> = chain_from c s ?N (chain_next c s (head s))"
    by (rule chain_from_Mod_read [OF v hd])
  also have "\<dots> = chain_from c s k (chain_next c s (head s))"
    using short by (rule chain_from_more_fuel) (simp add: k)
  finally have fc1: "free_chain c s = ?h # free_chain c ?s1" using fc by simp
  have "unat (used s) + 2 < 65536" using ul pow_bits_le [OF v] by (simp add: N)
  then have "unat (used s + of_nat 2) = unat (used s) + 2" by (rule unat_used_plus)
  then have us: "unat (used ?s1) = unat (used s) + 2" by (simp add: alloc_slab_used)
  have "free_list_inv c ?s1"
    using fl fc1 len by (simp add: free_list_inv_nat us)
  then show ?thesis using hnz fc1 by (simp add: get_head_def)
qed

text \<open>
  The state that \<^verbatim>\<open>dealloc_slab\<close> leaves behind when it returns, described by its
  fields: the slot is pushed to the front of the chain.
\<close>

lemma dealloc_slab_preserves_inv:
  assumes v: "valid_config c" and inv: "free_list_inv c s"
    and ge: "2 \<le> unat (used s)"
    and i1: "1 \<le> unat index" and i2: "unat index < unat (SLAB_COUNT c)"
    and nf: "index \<notin> set (free_chain c s)"
    and hd2: "head s2 = index" and u2: "used s2 = used s - 2"
    and m: "meta s2 = (meta s)[ModArray_index c (ucast index) :=
                         (meta s ! ModArray_index c (ucast index))
                           \<lparr> sizeclass := 0, next := get_head c s - index - 1 \<rparr>]"
  shows "free_chain c s2 = index # free_chain c s \<and> free_list_inv c s2"
proof -
  let ?b = "SLAB_COUNT_BITS c"
  let ?N = "unat (SLAB_COUNT c)"
  let ?h = "get_head c s"
  have N: "?N = 2 ^ ?b" by (rule unat_SLAB_COUNT [OF v])
  have len: "length (meta s) = ?N" using inv by (simp add: free_list_inv_def)
  have fl: "length (free_chain c s) + unat (used s) div 2 + 1 = ?N"
    using inv by (simp add: free_list_inv_nat)
  have "unat index mod 2 ^ ?b = unat index" using i2 N by simp
  then have ri: "Mod_read c index = index"
    by (simp add: word_unat_eq_iff unat_Mod_read [OF v])
  then have ti: "take_bit ?b index = index" by (simp add: Mod_read_take_bit [OF v])
  have inz: "index \<noteq> 0" using i1 by auto
  have mi: "ModArray_index c (ucast index) = unat index"
    by (simp add: ModArray_index_ucast [OF v] ti)
  have m2: "meta s2 = (meta s)[unat index := (meta s ! unat index)
              \<lparr> sizeclass := 0, next := ?h - index - 1 \<rparr>]"
    using m by (simp only: mi)
  have li: "unat index < length (meta s)" using i2 len by simp
  have nx_i: "next (meta s2 ! unat index) = ?h - index - 1" using li by (simp add: m2)
  have nx_o: "next (meta s2 ! j) = next (meta s ! j)" if "j \<noteq> unat index" for j
    using that by (simp add: m2)
  have h: "?h = take_bit ?b (head s)"
    by (simp add: get_head_def Mod_read_take_bit [OF v])
  have step_i: "chain_next c s2 index = ?h"
    by (simp add: chain_next_take_bit [OF v] ti nx_i) (simp add: h)
  have step_o: "chain_next c s2 x = chain_next c s x" if "x \<in> set (free_chain c s)" for x
  proof -
    have x: "x \<noteq> 0 \<and> Mod_read c x = x"
      using that unfolding free_chain_def by (rule chain_from_members [OF v])
    have "x \<noteq> index" using that nf by auto
    then have "unat (take_bit ?b x) \<noteq> unat index"
      using x by (simp add: Mod_read_take_bit [OF v] word_unat_eq_iff)
    then show ?thesis by (simp add: chain_next_take_bit [OF v] nx_o)
  qed
  have N2: "2 \<le> ?N" using pow_bits_ge [OF v] by (simp add: N)
  then obtain k where k: "?N = Suc k" by (cases ?N) simp_all
  have old: "chain_from c s ?N ?h = free_chain c s"
    unfolding free_chain_def
    by (rule chain_from_Mod_read [OF v]) (simp add: get_head_def Mod_read_idem [OF v])
  have "chain_from c s2 ?N ?h = chain_from c s ?N ?h"
    by (rule chain_from_cong_on [OF v]) (simp add: old step_o)
  then have new: "chain_from c s2 ?N ?h = free_chain c s" by (simp only: old)
  have "length (free_chain c s) < k" using fl ge k by simp
  then have "length (chain_from c s2 ?N ?h) < k" by (simp only: new)
  then have "chain_from c s2 k ?h = chain_from c s2 ?N ?h"
    by (rule chain_from_less_fuel) (simp add: k)
  then have tl: "chain_from c s2 k ?h = free_chain c s" by (simp only: new)
  have fc: "free_chain c s2 = index # free_chain c s"
    using inz by (simp add: free_chain_def hd2 k ri step_i tl)
  have "unat (used s - of_nat 2) = unat (used s) - 2" using ge by (rule unat_used_minus)
  then have us: "unat (used s2) = unat (used s) - 2" by (simp add: u2)
  have len2: "length (meta s2) = ?N" using len by (simp add: m)
  have "free_list_inv c s2"
    using fl len2 ge by (simp add: free_list_inv_nat fc us)
  then show ?thesis using fc by simp
qed

text \<open>
  Claim C3.  In a state that satisfies the free-list invariant and is not almost full,
  \<^verbatim>\<open>alloc_slab\<close> returns the address of slot \<^verbatim>\<open>head\<close>, that is the header address
  plus \<^verbatim>\<open>head * SLAB_SIZE\<close>; with \<open>n\<close> the \<^verbatim>\<open>next\<close> offset stored in that slot, the new
  \<^verbatim>\<open>head\<close> is \<open>(head + n + 1) mod SLAB_COUNT\<close>; the slot records the size class
  (truncated to a byte, hence unchanged below 256); and \<^verbatim>\<open>used\<close> grows by exactly 2.
  The slot handed out is a regular one, it is the first of the chain, the rest of the
  chain is the new chain, and the invariant holds again.
\<close>

theorem alloc_slab_pops_head:
  assumes "valid_config c" and "free_list_inv c s" and "\<not> is_almost_full c s"
  shows "fst (alloc_slab c self s sc) = self + ucast (get_head c s) * SLAB_SIZE c \<and>
         unat (get_head c (snd (alloc_slab c self s sc)))
           = (unat (get_head c s) + unat (next (meta_at c s (ucast (get_head c s)))) + 1)
             mod unat (SLAB_COUNT c) \<and>
         sizeclass (meta_at c (snd (alloc_slab c self s sc)) (ucast (get_head c s)))
           = ucast sc \<and>
         (unat sc < 256 \<longrightarrow>
            unat (sizeclass (meta_at c (snd (alloc_slab c self s sc)) (ucast (get_head c s))))
              = unat sc) \<and>
         unat (used (snd (alloc_slab c self s sc))) = unat (used s) + 2 \<and>
         get_head c s \<noteq> 0 \<and>
         free_chain c s = get_head c s # free_chain c (snd (alloc_slab c self s sc)) \<and>
         free_list_inv c (snd (alloc_slab c self s sc))"
proof -
  let ?N = "(2::nat) ^ SLAB_COUNT_BITS c"
  let ?h = "get_head c s"
  let ?n = "next (meta_at c s (ucast ?h))"
  let ?r = "alloc_slab c self s sc"
  have N: "unat (SLAB_COUNT c) = ?N" by (rule unat_SLAB_COUNT [OF assms(1)])
  have len: "length (meta s) = unat (SLAB_COUNT c)"
    using assms(2) by (simp add: free_list_inv_nat)
  have addr: "fst ?r = self + ucast ?h * SLAB_SIZE c"
    by (simp add: alloc_slab_fst push_bit_eq_mult SLAB_SIZE_def)
  have "head (snd ?r) = ?h + ?n + 1" by (rule alloc_slab_head)
  then have hd: "get_head c (snd ?r) = Mod_read c (?h + ?n + 1)"
    by (simp only: get_head_def [of c "snd ?r"])
  have hd': "unat (get_head c (snd ?r)) = (unat ?h + unat ?n + 1) mod unat (SLAB_COUNT c)"
    unfolding hd N unat_Mod_read [OF assms(1)] unat_add8
    by (simp only: mod_256_mod_N [OF assms(1)])
  have idx: "ModArray_index c (ucast ?h) < length (meta s)"
    using ModArray_index_less [OF assms(1)] len by simp
  have sz: "sizeclass (meta_at c (snd ?r) (ucast ?h)) = ucast sc"
    using idx by (simp add: meta_at_def alloc_slab_meta)
  have sz': "unat sc < 256 \<Longrightarrow> unat (ucast sc :: uint8_t) = unat sc"
    by (simp add: unsigned_ucast_eq take_bit_nat_eq_self_iff)
  have "unat (used s) < 2 * (?N - 1)"
    using assms(3) by (simp add: is_almost_full_iff [OF assms(1)])
  moreover have "?N \<le> 256" by (rule pow_bits_le [OF assms(1)])
  ultimately have "unat (used s) + 2 < 65536" by simp
  then have "unat (used s + of_nat 2) = unat (used s) + 2" by (rule unat_used_plus)
  then have us: "unat (used (snd ?r)) = unat (used s) + 2"
    by (simp add: alloc_slab_used)
  note pres = alloc_slab_preserves_inv [OF assms, of self sc]
  show ?thesis
    using addr hd' sz sz' us pres by simp
qed

theorem alloc_slab_pops_head_witness:
  "valid_config cfg4 \<and> free_list_inv cfg4 st_init \<and> \<not> is_almost_full cfg4 st_init \<and>
   unat (5 :: sizeclass_t) < 256 \<and>
   fst (alloc_slab cfg4 self0 st_init 5) = 81920 \<and>
   unat (get_head cfg4 (snd (alloc_slab cfg4 self0 st_init 5))) = 2 \<and>
   unat (sizeclass (meta_at cfg4 (snd (alloc_slab cfg4 self0 st_init 5))
                      (ucast (get_head cfg4 st_init)))) = 5 \<and>
   unat (used (snd (alloc_slab cfg4 self0 st_init 5))) = 2"
proof -
  have v: "valid_config cfg4" by code_simp
  have i: "free_list_inv cfg4 st_init" by code_simp
  have a: "\<not> is_almost_full cfg4 st_init" by code_simp
  have b: "unat (5 :: sizeclass_t) < 256" by simp
  note t = alloc_slab_pops_head [OF v i a, of self0 5]
  have e1: "self0 + ucast (get_head cfg4 st_init) * SLAB_SIZE cfg4 = 81920" by code_simp
  have e2: "(unat (get_head cfg4 st_init)
             + unat (next (meta_at cfg4 st_init (ucast (get_head cfg4 st_init)))) + 1)
            mod unat (SLAB_COUNT cfg4) = 2" by code_simp
  have e3: "unat (used st_init) + 2 = 2" by code_simp
  have "fst (alloc_slab cfg4 self0 st_init 5)
        = self0 + ucast (get_head cfg4 st_init) * SLAB_SIZE cfg4"
    using t by blast
  then have c1: "fst (alloc_slab cfg4 self0 st_init 5) = 81920" by (simp only: e1)
  have "unat (get_head cfg4 (snd (alloc_slab cfg4 self0 st_init 5)))
        = (unat (get_head cfg4 st_init)
           + unat (next (meta_at cfg4 st_init (ucast (get_head cfg4 st_init)))) + 1)
          mod unat (SLAB_COUNT cfg4)"
    using t by blast
  then have c2: "unat (get_head cfg4 (snd (alloc_slab cfg4 self0 st_init 5))) = 2"
    by (simp only: e2)
  have "unat (sizeclass (meta_at cfg4 (snd (alloc_slab cfg4 self0 st_init 5))
                      (ucast (get_head cfg4 st_init)))) = unat (5 :: sizeclass_t)"
    using t b by blast
  then have c3: "unat (sizeclass (meta_at cfg4 (snd (alloc_slab cfg4 self0 st_init 5))
                      (ucast (get_head cfg4 st_init)))) = 5"
    by simp
  have "unat (used (snd (alloc_slab cfg4 self0 st_init 5))) = unat (used st_init) + 2"
    using t by blast
  then have c4: "unat (used (snd (alloc_slab cfg4 self0 st_init 5))) = 2" by (simp only: e3)
  show ?thesis using v i a b c1 c2 c3 c4 by blast
qed




text \<open>
  How the state \<open>st_low_free\<close> comes about in a release build: \<^verbatim>\<open>init\<close> on a
  zero-filled region, two calls of \<^verbatim>\<open>alloc_slab\<close> (slots 1 and 2), \<^verbatim>\<open>dealloc_slab\<close>
  of slot 1.
\<close>

lemma st_low_free_reached:
  "init cfg4_release (zero_superslab cfg4_release) 7 = Inr st_init \<and>
   dealloc_slab cfg4_release self0
     (snd (alloc_slab cfg4_release self0 (snd (alloc_slab cfg4_release self0 st_init 5)) 5))
     (self0 + push_bit (SLAB_BITS cfg4_release) 1) = Inr (NoStatusChange, st_low_free)"
  by code_simp

text \<open>
  Claim C4, as stated, at a concrete input.  In the four-slot configuration, in a release
  build, with slot 2 the only regular slab outstanding and \<^verbatim>\<open>head = 1\<close>, returning
  slot 2 stores the byte \<open>1 - 2 - 1 = 254\<close> in that slot's \<^verbatim>\<open>next\<close> field, while
  \<open>(1 - 2 - 1) mod SLAB_COUNT\<close> is 2.
\<close>

theorem dealloc_slab_next_offset_counterexample:
  "free_list_inv cfg4_release st_low_free \<and> 2 \<le> unat (used st_low_free) \<and>
   (2 :: uint8_t) \<notin> set (free_chain cfg4_release st_low_free) \<and>
   get_head cfg4_release st_low_free = 1 \<and>
   dealloc_slab cfg4_release self0 st_low_free (self0 + push_bit (SLAB_BITS cfg4_release) 2)
     = Inr (StatusChange,
            \<lparr> kind = Super, allocator = 7, head = 2, used = 0,
              meta = [Metaslab,
                      \<lparr> free_queue_init = True, full = True, sizeclass = 0, next = 1 \<rparr>,
                      \<lparr> free_queue_init = True, full = True, sizeclass = 0, next = 254 \<rparr>,
                      Metaslab] \<rparr>) \<and>
   (uint (get_head cfg4_release st_low_free) - uint (2 :: uint8_t) - 1)
     mod uint (SLAB_COUNT cfg4_release) = 2"
  by code_simp

text \<open>
  Claim C4, amended.  For a slab pointer that addresses a regular slot \<open>index\<close> of this
  superslab, with at least one regular slab outstanding, \<^verbatim>\<open>dealloc_slab\<close> computes
  \<open>index\<close>; it fails its assertion exactly in a debug build when the slot is not unused;
  otherwise it returns, having cleared the slot's size class, stored the byte
  \<open>(old_head - index - 1) mod 256\<close> in the slot's \<^verbatim>\<open>next\<close> field (a value congruent to
  \<open>old_head - index - 1\<close> modulo \<^verbatim>\<open>SLAB_COUNT\<close>), set \<^verbatim>\<open>head\<close> to \<open>index\<close> and lowered
  \<^verbatim>\<open>used\<close> by 2, and answers \<^verbatim>\<open>StatusChange\<close> exactly when the superslab was almost
  full before or is empty after, \<^verbatim>\<open>NoStatusChange\<close> otherwise.
\<close>

theorem dealloc_slab_pushes_front:
  assumes "valid_config c"
    and "length (meta s) = unat (SLAB_COUNT c)"
    and "2 \<le> unat (used s)"
    and "1 \<le> unat index" and "unat index < unat (SLAB_COUNT c)"
    and "slab = this + push_bit (SLAB_BITS c) (ucast index)"
  shows "slab_to_index c this slab = Inr (ucast index) \<and>
         (dealloc_slab c this s slab = Inl AssertFailed \<longleftrightarrow>
            \<not> NDEBUG c \<and> \<not> is_unused (meta_at c s (ucast index))) \<and>
         (NDEBUG c \<or> is_unused (meta_at c s (ucast index)) \<longrightarrow>
          (\<exists>a s'. dealloc_slab c this s slab = Inr (a, s') \<and>
             sizeclass (meta_at c s' (ucast index)) = 0 \<and>
             next (meta_at c s' (ucast index)) = get_head c s - index - 1 \<and>
             unat (next (meta_at c s' (ucast index)))
               = (256 + unat (get_head c s) - unat index - 1) mod 256 \<and>
             unat (next (meta_at c s' (ucast index))) mod unat (SLAB_COUNT c)
               = (unat (SLAB_COUNT c) + unat (get_head c s) - unat index - 1)
                 mod unat (SLAB_COUNT c) \<and>
             (unat (next (meta_at c s' (ucast index)))
                = (unat (SLAB_COUNT c) + unat (get_head c s) - unat index - 1)
                  mod unat (SLAB_COUNT c)
              \<longleftrightarrow> unat (SLAB_COUNT c) = 256 \<or> unat index < unat (get_head c s)) \<and>
             get_head c s' = index \<and>
             unat (used s') + 2 = unat (used s) \<and>
             (a = StatusChange \<longleftrightarrow> is_almost_full c s \<or> is_empty s') \<and>
             (a = NoStatusChange \<longleftrightarrow> \<not> (is_almost_full c s \<or> is_empty s'))))"
proof -
  let ?N = "(2::nat) ^ SLAB_COUNT_BITS c"
  have N: "unat (SLAB_COUNT c) = ?N" by (rule unat_SLAB_COUNT [OF assms(1)])
  have ix: "slab_to_index c this slab = Inr (ucast index)"
    unfolding assms(6) by (rule slab_to_index_of_slab [OF assms(1,5)])
  obtain a s' where
    r: "dealloc_slab c this s slab =
          (if \<not> NDEBUG c \<and> \<not> is_unused (meta_at c s (ucast index))
           then Inl AssertFailed else Inr (a, s'))"
    and act: "a = (if is_almost_full c s \<or> is_empty s' then StatusChange else NoStatusChange)"
    and u: "used s' = used s - 2" and h: "head s' = index"
    and m: "meta s' = (meta s)[ModArray_index c (ucast index) :=
                         (meta s ! ModArray_index c (ucast index))
                           \<lparr> sizeclass := 0, next := get_head c s - index - 1 \<rparr>]"
    using dealloc_slab_char [OF ix, of s] by blast
  have fail: "dealloc_slab c this s slab = Inl AssertFailed \<longleftrightarrow>
                \<not> NDEBUG c \<and> \<not> is_unused (meta_at c s (ucast index))"
    unfolding r by simp
  have idx: "ModArray_index c (ucast index) < length (meta s)"
    using ModArray_index_less [OF assms(1)] assms(2) by simp
  have sz: "sizeclass (meta_at c s' (ucast index)) = 0"
    using idx by (simp add: meta_at_def m)
  have nx: "next (meta_at c s' (ucast index)) = get_head c s - index - 1"
    using idx by (simp add: meta_at_def m)
  have nx256: "unat (next (meta_at c s' (ucast index)))
               = (256 + unat (get_head c s) - unat index - 1) mod 256"
    unfolding nx by (rule unat_head_minus)
  have "unat (next (meta_at c s' (ucast index))) mod ?N
        = (256 + unat (get_head c s) - unat index - 1) mod ?N"
    unfolding nx256 by (rule mod_256_mod_N [OF assms(1)])
  also have "\<dots> = (?N + unat (get_head c s) - unat index - 1) mod ?N"
    using assms(5) N by (intro mod_N_shift [OF assms(1)]) simp
  finally have nxN: "unat (next (meta_at c s' (ucast index))) mod unat (SLAB_COUNT c)
        = (unat (SLAB_COUNT c) + unat (get_head c s) - unat index - 1) mod unat (SLAB_COUNT c)"
    by (simp only: N)
  have hN: "unat (get_head c s) < ?N"
    by (simp add: get_head_def unat_Mod_read [OF assms(1)])
  have iN: "unat index < ?N" using assms(5) by (simp only: N)
  have "(256 + unat (get_head c s) - unat index - 1) mod 256
             = (?N + unat (get_head c s) - unat index - 1) mod ?N
             \<longleftrightarrow> ?N = 256 \<or> unat index < unat (get_head c s)"
    by (rule next_offset_reduced_iff [OF dvd_256 [OF assms(1)] pow_bits_ge [OF assms(1)] hN iN])
  then have red: "unat (next (meta_at c s' (ucast index)))
             = (unat (SLAB_COUNT c) + unat (get_head c s) - unat index - 1)
               mod unat (SLAB_COUNT c)
             \<longleftrightarrow> unat (SLAB_COUNT c) = 256 \<or> unat index < unat (get_head c s)"
    by (simp only: nx256 N)
  have "get_head c s' = Mod_read c index"
    by (simp add: get_head_def h)
  moreover have "Mod_read c index = of_nat (unat index)"
    using assms(5) N by (intro Mod_read_eq_of_nat [OF assms(1)]) simp
  ultimately have hd: "get_head c s' = index" by simp
  have "unat (used s - of_nat 2) = unat (used s) - 2"
    using assms(3) by (rule unat_used_minus)
  then have us: "unat (used s') + 2 = unat (used s)"
    using assms(3) by (simp add: u)
  have a1: "a = StatusChange \<longleftrightarrow> is_almost_full c s \<or> is_empty s'"
    by (subst act) simp
  have a2: "a = NoStatusChange \<longleftrightarrow> \<not> (is_almost_full c s \<or> is_empty s')"
    by (subst act) simp
  have ret: "dealloc_slab c this s slab = Inr (a, s')"
    if "NDEBUG c \<or> is_unused (meta_at c s (ucast index))"
    using that unfolding r by auto
  show ?thesis
    using ix fail ret sz nx nx256 nxN red hd us a1 a2 by blast
qed

theorem dealloc_slab_pushes_front_witness:
  "valid_config cfg4_release \<and>
   length (meta st_low_free) = unat (SLAB_COUNT cfg4_release) \<and>
   2 \<le> unat (used st_low_free) \<and> 1 \<le> unat (2 :: uint8_t) \<and>
   unat (2 :: uint8_t) < unat (SLAB_COUNT cfg4_release) \<and> NDEBUG cfg4_release \<and>
   (\<exists>a s'. dealloc_slab cfg4_release self0 st_low_free
               (self0 + push_bit (SLAB_BITS cfg4_release) (ucast (2 :: uint8_t))) = Inr (a, s') \<and>
            unat (next (meta_at cfg4_release s' (ucast (2 :: uint8_t)))) = 254 \<and>
            get_head cfg4_release s' = 2) \<and>
   valid_config cfg4 \<and> length (meta st_low_free) = unat (SLAB_COUNT cfg4) \<and>
   unat (2 :: uint8_t) < unat (SLAB_COUNT cfg4) \<and> \<not> NDEBUG cfg4 \<and>
   \<not> is_unused (meta_at cfg4 st_low_free (ucast (2 :: uint8_t))) \<and>
   dealloc_slab cfg4 self0 st_low_free
       (self0 + push_bit (SLAB_BITS cfg4) (ucast (2 :: uint8_t))) = Inl AssertFailed"
proof -
  have v: "valid_config cfg4_release" by code_simp
  have l: "length (meta st_low_free) = unat (SLAB_COUNT cfg4_release)" by code_simp
  have u: "2 \<le> unat (used st_low_free)" by code_simp
  have i1: "1 \<le> unat (2 :: uint8_t)" by simp
  have i2: "unat (2 :: uint8_t) < unat (SLAB_COUNT cfg4_release)" by code_simp
  have nd: "NDEBUG cfg4_release" by code_simp
  note t = dealloc_slab_pushes_front [OF v l u i1 i2 refl, where this = self0]
  have e: "(256 + unat (get_head cfg4_release st_low_free) - unat (2 :: uint8_t) - 1) mod 256
           = 254"
    by code_simp
  obtain a s' where
    r: "dealloc_slab cfg4_release self0 st_low_free
          (self0 + push_bit (SLAB_BITS cfg4_release) (ucast (2 :: uint8_t))) = Inr (a, s')"
    and n: "unat (next (meta_at cfg4_release s' (ucast (2 :: uint8_t))))
              = (256 + unat (get_head cfg4_release st_low_free) - unat (2 :: uint8_t) - 1)
                mod 256"
    and h: "get_head cfg4_release s' = 2"
    using t nd by blast
  have c1: "unat (next (meta_at cfg4_release s' (ucast (2 :: uint8_t)))) = 254"
    using n by (simp only: e)
  have v': "valid_config cfg4" by code_simp
  have l': "length (meta st_low_free) = unat (SLAB_COUNT cfg4)" by code_simp
  have i2': "unat (2 :: uint8_t) < unat (SLAB_COUNT cfg4)" by code_simp
  have d: "\<not> NDEBUG cfg4" by code_simp
  have f: "\<not> is_unused (meta_at cfg4 st_low_free (ucast (2 :: uint8_t)))" by code_simp
  note t' = dealloc_slab_pushes_front [OF v' l' u i1 i2' refl, where this = self0]
  have c2: "dealloc_slab cfg4 self0 st_low_free
              (self0 + push_bit (SLAB_BITS cfg4) (ucast (2 :: uint8_t))) = Inl AssertFailed"
    using t' d f by blast
  show ?thesis using v l u i1 i2 nd r c1 h v' l' i2' d f c2 by blast
qed

text \<open>
  Claim C5, as stated, at a concrete input.  In the four-slot configuration in a debug
  build, the state after \<^verbatim>\<open>init\<close> satisfies the invariant and is not almost full;
  \<^verbatim>\<open>alloc_slab\<close> marks the slot it hands out as full, and \<^verbatim>\<open>dealloc_slab\<close> called at
  once on the returned slab fails its assertion that the slot is unused: the pair of
  calls leaves no state in which \<^verbatim>\<open>head\<close> or the chain could be compared.
\<close>

theorem alloc_dealloc_round_trip_counterexample:
  "valid_config cfg4 \<and> free_list_inv cfg4 st_init \<and> \<not> is_almost_full cfg4 st_init \<and>
   \<not> NDEBUG cfg4 \<and>
   fst (alloc_slab cfg4 self0 st_init 5) = self0 + push_bit (SLAB_BITS cfg4) 1 \<and>
   \<not> is_unused (meta_at cfg4 (snd (alloc_slab cfg4 self0 st_init 5)) 1) \<and>
   dealloc_slab cfg4 self0 (snd (alloc_slab cfg4 self0 st_init 5))
       (fst (alloc_slab cfg4 self0 st_init 5))
     = Inl AssertFailed"
  by code_simp

text \<open>
  Claim C5, amended.  Handing out a regular slab and returning it at once fails the
  assertion of \<^verbatim>\<open>dealloc_slab\<close> in every debug build.  In a release build the pair
  brings \<^verbatim>\<open>head\<close> back to the slot it named before, leaves the chain from \<^verbatim>\<open>head\<close>
  the same list of slots in the same order, and leaves \<^verbatim>\<open>used\<close> as it was.  This
  holds in every state whose metadata array has \<^verbatim>\<open>SLAB_COUNT\<close> records, in particular
  in every state that is not almost full.
\<close>

theorem alloc_dealloc_round_trip:
  assumes "valid_config c" and "length (meta s) = unat (SLAB_COUNT c)"
  shows "(dealloc_slab c self (snd (alloc_slab c self s sc)) (fst (alloc_slab c self s sc))
            = Inl AssertFailed \<longleftrightarrow> \<not> NDEBUG c) \<and>
         (NDEBUG c \<longrightarrow>
          (\<exists>a s2. dealloc_slab c self (snd (alloc_slab c self s sc))
                      (fst (alloc_slab c self s sc)) = Inr (a, s2) \<and>
                   get_head c s2 = get_head c s \<and>
                   free_chain c s2 = free_chain c s \<and>
                   used s2 = used s))"
proof -
  let ?b = "SLAB_COUNT_BITS c"
  let ?h = "get_head c s"
  let ?n0 = "next (meta s ! unat ?h)"
  let ?s1 = "snd (alloc_slab c self s sc)"
  let ?slab = "fst (alloc_slab c self s sc)"
  have N: "unat (SLAB_COUNT c) = 2 ^ ?b" by (rule unat_SLAB_COUNT [OF assms(1)])
  have h: "?h = take_bit ?b (head s)"
    by (simp add: get_head_def Mod_read_take_bit [OF assms(1)])
  have hi: "take_bit ?b ?h = ?h" by (simp add: h)
  have hlt: "unat ?h < 2 ^ ?b" by (simp add: h unat_take_bit8)
  have mi: "ModArray_index c (ucast ?h) = unat ?h"
    by (simp add: ModArray_index_ucast [OF assms(1)] hi)
  have ix: "slab_to_index c self ?slab = Inr (ucast ?h)"
    unfolding alloc_slab_fst using hlt N by (intro slab_to_index_of_slab [OF assms(1)]) simp
  have len: "unat ?h < length (meta s)" using hlt assms(2) N by simp
  have "head ?s1 = ?h + ?n0 + 1"
    by (simp only: alloc_slab_head meta_at_def mi)
  then have hd1: "get_head c ?s1 = take_bit ?b (?h + ?n0 + 1)"
    by (simp only: get_head_def [of c ?s1] Mod_read_take_bit [OF assms(1)])
  have m1: "meta ?s1 = (meta s)[unat ?h := (set_full (fq_init (meta s ! unat ?h)))
                                    \<lparr> sizeclass := ucast sc \<rparr>]"
    by (simp add: alloc_slab_meta mi)
  have full1: "\<not> is_unused (meta_at c ?s1 (ucast ?h))"
    using len by (simp add: meta_at_def mi m1 is_unused_def set_full_def)
  obtain a s2 where
    r: "dealloc_slab c self ?s1 ?slab =
          (if \<not> NDEBUG c \<and> \<not> is_unused (meta_at c ?s1 (ucast ?h))
           then Inl AssertFailed else Inr (a, s2))"
    and u: "used s2 = used ?s1 - 2" and hd2: "head s2 = ?h"
    and m: "meta s2 = (meta ?s1)[ModArray_index c (ucast ?h) :=
                         (meta ?s1 ! ModArray_index c (ucast ?h))
                           \<lparr> sizeclass := 0, next := get_head c ?s1 - ?h - 1 \<rparr>]"
    using dealloc_slab_char [OF ix, of ?s1] by blast
  have p1: "dealloc_slab c self ?s1 ?slab = Inl AssertFailed \<longleftrightarrow> \<not> NDEBUG c"
    unfolding r using full1 by simp
  have r1: "dealloc_slab c self ?s1 ?slab = Inr (a, s2)" if "NDEBUG c"
    unfolding r using that by simp
  have m2: "meta s2 = (meta ?s1)[unat ?h := (meta ?s1 ! unat ?h)
              \<lparr> sizeclass := 0, next := take_bit ?b (?h + ?n0 + 1) - ?h - 1 \<rparr>]"
    using m by (simp only: mi hd1)
  have nx_h: "next (meta s2 ! unat ?h) = take_bit ?b (?h + ?n0 + 1) - ?h - 1"
    using len by (simp add: m2 m1)
  have nx_o: "next (meta s2 ! i) = next (meta s ! i)" if "i \<noteq> unat ?h" for i
    using that by (simp add: m2 m1)
  have step: "chain_next c s2 x = chain_next c s x" for x
  proof (cases "unat (take_bit ?b x) = unat ?h")
    case True
    then have "take_bit ?b x = ?h" by (simp add: word_unat_eq_iff)
    then show ?thesis
      by (simp add: chain_next_take_bit [OF assms(1)] nx_h)
  next
    case False
    then show ?thesis
      by (simp add: chain_next_take_bit [OF assms(1)] nx_o)
  qed
  have g: "get_head c s2 = ?h"
    by (simp add: get_head_def hd2 Mod_read_take_bit [OF assms(1)] hi [unfolded get_head_def])
  have "free_chain c s2 = chain_from c s2 (unat (SLAB_COUNT c)) ?h"
    by (simp add: free_chain_def hd2)
  also have "\<dots> = chain_from c s (unat (SLAB_COUNT c)) ?h"
    by (rule chain_from_cong) (rule step)
  also have "\<dots> = chain_from c s (unat (SLAB_COUNT c)) (head s)"
    by (rule chain_from_Mod_read [OF assms(1)])
       (simp add: get_head_def Mod_read_idem [OF assms(1)])
  finally have fc: "free_chain c s2 = free_chain c s" by (simp add: free_chain_def)
  have us: "used s2 = used s" by (simp add: u alloc_slab_used)
  show ?thesis using p1 r1 g fc us by blast
qed

theorem alloc_dealloc_round_trip_witness:
  "valid_config cfg4_release \<and> length (meta st_init) = unat (SLAB_COUNT cfg4_release) \<and>
   \<not> is_almost_full cfg4_release st_init \<and> NDEBUG cfg4_release \<and>
   (\<exists>a s2. dealloc_slab cfg4_release self0 (snd (alloc_slab cfg4_release self0 st_init 5))
               (fst (alloc_slab cfg4_release self0 st_init 5)) = Inr (a, s2) \<and>
            get_head cfg4_release s2 = 1 \<and> free_chain cfg4_release s2 = [1, 2, 3])"
proof -
  have v: "valid_config cfg4_release" by code_simp
  have l: "length (meta st_init) = unat (SLAB_COUNT cfg4_release)" by code_simp
  have a: "\<not> is_almost_full cfg4_release st_init" by code_simp
  have n: "NDEBUG cfg4_release" by code_simp
  note t = alloc_dealloc_round_trip [OF v l, where self = self0 and sc = 5]
  have e1: "get_head cfg4_release st_init = 1" by code_simp
  have e2: "free_chain cfg4_release st_init = [1, 2, 3]" by code_simp
  obtain b s3 where
    r: "dealloc_slab cfg4_release self0 (snd (alloc_slab cfg4_release self0 st_init 5))
               (fst (alloc_slab cfg4_release self0 st_init 5)) = Inr (b, s3)"
    and h: "get_head cfg4_release s3 = get_head cfg4_release st_init"
    and f: "free_chain cfg4_release s3 = free_chain cfg4_release st_init"
    using t n by blast
  have h1: "get_head cfg4_release s3 = 1" using h by (simp only: e1)
  have f1: "free_chain cfg4_release s3 = [1, 2, 3]" using f by (simp only: e2)
  show ?thesis using v l a n r h1 f1 by blast
qed

section \<open>The short slab\<close>

lemma alloc_short_slab_chain:
  assumes "even (unat (used s))"
  shows "free_chain c (snd (alloc_short_slab c self s sc)) = free_chain c s"
proof -
  let ?s' = "snd (alloc_short_slab c self s sc)"
  note eq = alloc_short_slab_free [OF assms, of c self sc]
  have h: "head ?s' = head s" by (simp add: eq)
  have m: "meta ?s' = (meta s)[0 := (set_full (fq_init (meta s ! 0)))\<lparr> sizeclass := ucast sc \<rparr>]"
    by (simp add: eq meta_modify_meta ModArray_index_0)
  have nx: "next (meta ?s' ! i) = next (meta s ! i)" for i
    by (cases "i = 0"; cases "meta s") (simp_all add: m set_full_def fq_init_def)
  have step: "chain_next c ?s' x = chain_next c s x" for x
    by (simp add: chain_next_def Let_def meta_at_def nx)
  have "free_chain c ?s' = chain_from c ?s' (unat (SLAB_COUNT c)) (head s)"
    by (simp add: free_chain_def h)
  also have "\<dots> = chain_from c s (unat (SLAB_COUNT c)) (head s)"
    by (rule chain_from_cong) (rule step)
  finally show ?thesis by (simp add: free_chain_def)
qed

lemma alloc_short_slab_preserves_inv:
  assumes "even (unat (used s))" and "free_list_inv c s"
  shows "free_list_inv c (snd (alloc_short_slab c self s sc))"
proof -
  have "unat (used s) < 2 ^ 16" using unsigned_less [of "used s"] by simp
  moreover have "unat (used s) \<noteq> 65535" using assms(1) by auto
  ultimately have "unat (used s) + 1 < 65536" by simp
  then have "unat (used s + of_nat 1) = unat (used s) + 1" by (rule unat_used_plus)
  then have u: "unat (used (snd (alloc_short_slab c self s sc))) = unat (used s) + 1"
    by (simp add: alloc_short_slab_free [OF assms(1)])
  have l: "length (meta (snd (alloc_short_slab c self s sc))) = length (meta s)"
    by (simp add: alloc_short_slab_free [OF assms(1)])
  show ?thesis
    using assms by (simp add: free_list_inv_nat alloc_short_slab_chain u l)
qed

lemma dealloc_short_slab_preserves_inv:
  assumes "odd (unat (used s))" and "free_list_inv c s"
  shows "free_chain c (s\<lparr> used := used s - 1 \<rparr>) = free_chain c s \<and>
         free_list_inv c (s\<lparr> used := used s - 1 \<rparr>)"
proof -
  have ge: "1 \<le> unat (used s)" using assms(1) by (cases "unat (used s)") simp_all
  then have "unat (used s - of_nat 1) = unat (used s) - 1" by (rule unat_used_minus)
  then have u: "unat (used s - 1) = unat (used s) - 1" by simp
  have fc: "free_chain c (s\<lparr> used := used s - 1 \<rparr>) = free_chain c s"
    unfolding free_chain_def
    by (simp, rule chain_from_cong) (simp add: chain_next_def meta_at_def)
  have "(unat (used s) - 1) div 2 = unat (used s) div 2" using assms(1) by (auto elim: oddE)
  then show ?thesis
    using assms(2) by (simp add: free_list_inv_nat fc u)
qed

text \<open>
  Claim C6.  When the short slab is already in use (\<^verbatim>\<open>used\<close> is odd),
  \<^verbatim>\<open>alloc_short_slab\<close> is \<^verbatim>\<open>alloc_slab\<close>: the same address (that of slot \<^verbatim>\<open>head\<close>) and
  the same resulting header, with \<^verbatim>\<open>used\<close> raised by 2.
\<close>

theorem alloc_short_slab_falls_back:
  assumes "odd (unat (used s))"
  shows "alloc_short_slab c self s sc = alloc_slab c self s sc \<and>
         fst (alloc_short_slab c self s sc)
           = self + push_bit (SLAB_BITS c) (ucast (get_head c s)) \<and>
         used (snd (alloc_short_slab c self s sc)) = used s + 2"
  using assms by (simp add: alloc_short_slab_def used_odd_iff alloc_slab_used alloc_slab_fst)

theorem alloc_short_slab_falls_back_witness:
  "odd (unat (used st_short)) \<and>
   alloc_short_slab cfg4 self0 st_short 3 = alloc_slab cfg4 self0 st_short 3 \<and>
   fst (alloc_short_slab cfg4 self0 st_short 3) = 81920"
proof -
  have o: "odd (unat (used st_short))" by code_simp
  note t = alloc_short_slab_falls_back [OF o, of cfg4 self0 3]
  have e: "self0 + push_bit (SLAB_BITS cfg4) (ucast (get_head cfg4 st_short)) = 81920"
    by code_simp
  have "fst (alloc_short_slab cfg4 self0 st_short 3)
        = self0 + push_bit (SLAB_BITS cfg4) (ucast (get_head cfg4 st_short))"
    using t by blast
  then have c: "fst (alloc_short_slab cfg4 self0 st_short 3) = 81920" by (simp only: e)
  have q: "alloc_short_slab cfg4 self0 st_short 3 = alloc_slab cfg4 self0 st_short 3"
    using t by blast
  show ?thesis using o q c by blast
qed

text \<open>
  Claim C7.  With the short slab free (\<^verbatim>\<open>used\<close> even), \<^verbatim>\<open>alloc_short_slab\<close> returns
  the header address, leaves \<^verbatim>\<open>head\<close> alone, changes no metadata record other than
  that of slot 0 (and not the \<^verbatim>\<open>next\<close> field of that one), so the chain is the same,
  and raises \<^verbatim>\<open>used\<close> by exactly 1.  \<^verbatim>\<open>dealloc_short_slab\<close> fails its assertion
  exactly in a debug build when slot 0 is not unused; otherwise it returns, leaves
  \<^verbatim>\<open>head\<close> and the whole metadata array alone and lowers \<^verbatim>\<open>used\<close> by exactly 1.
\<close>

theorem short_slab_ops_frame:
  assumes "even (unat (used s))"
  shows "fst (alloc_short_slab c self s sc) = self \<and>
         head (snd (alloc_short_slab c self s sc)) = head s \<and>
         length (meta (snd (alloc_short_slab c self s sc))) = length (meta s) \<and>
         (\<forall>i. i \<noteq> 0 \<longrightarrow> meta (snd (alloc_short_slab c self s sc)) ! i = meta s ! i) \<and>
         next (meta (snd (alloc_short_slab c self s sc)) ! 0) = next (meta s ! 0) \<and>
         free_chain c (snd (alloc_short_slab c self s sc)) = free_chain c s \<and>
         unat (used (snd (alloc_short_slab c self s sc))) = unat (used s) + 1 \<and>
         (dealloc_short_slab c t = Inl AssertFailed \<longleftrightarrow>
            \<not> NDEBUG c \<and> \<not> is_unused (meta_at c t 0)) \<and>
         (NDEBUG c \<or> is_unused (meta_at c t 0) \<longrightarrow>
          (\<exists>a t'. dealloc_short_slab c t = Inr (a, t') \<and>
             head t' = head t \<and>
             meta t' = meta t \<and>
             used t' = used t - 1 \<and>
             (odd (unat (used t)) \<longrightarrow> unat (used t') + 1 = unat (used t))))"
proof -
  let ?s' = "snd (alloc_short_slab c self s sc)"
  note eq = alloc_short_slab_free [OF assms, of c self sc]
  have a: "fst (alloc_short_slab c self s sc) = self" by (simp add: eq)
  have h: "head ?s' = head s" by (simp add: eq)
  have l: "length (meta ?s') = length (meta s)" by (simp add: eq)
  have m: "meta ?s' = (meta s)[0 := (set_full (fq_init (meta s ! 0)))\<lparr> sizeclass := ucast sc \<rparr>]"
    by (simp add: eq meta_modify_meta ModArray_index_0)
  have o: "\<forall>i. i \<noteq> 0 \<longrightarrow> meta ?s' ! i = meta s ! i" by (simp add: m)
  have n0: "next (meta ?s' ! 0) = next (meta s ! 0)"
    by (cases "meta s") (simp_all add: m set_full_def fq_init_def)
  have fc: "free_chain c ?s' = free_chain c s" by (rule alloc_short_slab_chain [OF assms])
  have "unat (used s) < 2 ^ 16" using unsigned_less [of "used s"] by simp
  then have "unat (used s) \<noteq> 65535 \<Longrightarrow> unat (used s) + 1 < 65536" by simp
  moreover have "unat (used s) \<noteq> 65535" using assms by auto
  ultimately have "unat (used s + of_nat 1) = unat (used s) + 1"
    by (intro unat_used_plus) simp
  then have u: "unat (used ?s') = unat (used s) + 1" by (simp add: eq)
  obtain b t' where
    r: "dealloc_short_slab c t =
          (if \<not> NDEBUG c \<and> \<not> is_unused (meta_at c t 0)
           then Inl AssertFailed else Inr (b, t'))"
    and t': "t' = t\<lparr> used := used t - 1 \<rparr>"
    using dealloc_short_slab_char [of c t] by blast
  have fail: "dealloc_short_slab c t = Inl AssertFailed \<longleftrightarrow>
                \<not> NDEBUG c \<and> \<not> is_unused (meta_at c t 0)"
    unfolding r by simp
  have ret: "dealloc_short_slab c t = Inr (b, t')" if "NDEBUG c \<or> is_unused (meta_at c t 0)"
    using that unfolding r by auto
  have sel: "head t' = head t" "meta t' = meta t" "used t' = used t - 1"
    by (simp_all add: t')
  have d: "odd (unat (used t)) \<longrightarrow> unat (used t') + 1 = unat (used t)"
  proof
    assume "odd (unat (used t))"
    then have ge: "1 \<le> unat (used t)" by (cases "unat (used t)") simp_all
    then have "unat (used t - of_nat 1) = unat (used t) - 1" by (rule unat_used_minus)
    then show "unat (used t') + 1 = unat (used t)"
      using ge by (simp add: t')
  qed
  have dd: "NDEBUG c \<or> is_unused (meta_at c t 0) \<longrightarrow>
          (\<exists>a t'. dealloc_short_slab c t = Inr (a, t') \<and>
             head t' = head t \<and> meta t' = meta t \<and> used t' = used t - 1 \<and>
             (odd (unat (used t)) \<longrightarrow> unat (used t') + 1 = unat (used t)))"
    using ret sel d by blast
  show ?thesis
    using a h l o n0 fc u fail dd by blast
qed

theorem short_slab_ops_frame_witness:
  "even (unat (used st_init)) \<and> odd (unat (used st_short)) \<and>
   (1::nat) \<noteq> 0 \<and> NDEBUG cfg4_release \<and>
   head (snd (alloc_short_slab cfg4_release self0 st_init 3)) = 1 \<and>
   meta (snd (alloc_short_slab cfg4_release self0 st_init 3)) ! 1 = Metaslab \<and>
   unat (used (snd (alloc_short_slab cfg4_release self0 st_init 3))) = 1 \<and>
   (\<exists>a t'. dealloc_short_slab cfg4_release st_short = Inr (a, t') \<and>
            head t' = 1 \<and> meta t' = meta st_short \<and> unat (used t') + 1 = 1) \<and>
   \<not> NDEBUG cfg4 \<and> \<not> is_unused (meta_at cfg4 st_short 0) \<and>
   dealloc_short_slab cfg4 st_short = Inl AssertFailed"
proof -
  have ev: "even (unat (used st_init))" by code_simp
  have od: "odd (unat (used st_short))" by code_simp
  have nd: "NDEBUG cfg4_release" by code_simp
  note t = short_slab_ops_frame [OF ev, where c = cfg4_release and self = self0 and sc = 3
                                        and t = st_short]
  have e1: "head st_init = 1" by code_simp
  have e2: "meta st_init ! 1 = Metaslab" by code_simp
  have e3: "unat (used st_init) + 1 = 1" by code_simp
  have e4: "unat (used st_short) = 1" by code_simp
  have e5: "head st_short = 1" by code_simp
  have n: "(1::nat) \<noteq> 0" by simp
  have "head (snd (alloc_short_slab cfg4_release self0 st_init 3)) = head st_init"
    using t by blast
  then have c1: "head (snd (alloc_short_slab cfg4_release self0 st_init 3)) = 1"
    by (simp only: e1)
  have "meta (snd (alloc_short_slab cfg4_release self0 st_init 3)) ! 1 = meta st_init ! 1"
    using t n by blast
  then have c2: "meta (snd (alloc_short_slab cfg4_release self0 st_init 3)) ! 1 = Metaslab"
    by (simp only: e2)
  have "unat (used (snd (alloc_short_slab cfg4_release self0 st_init 3)))
          = unat (used st_init) + 1"
    using t by blast
  then have c3: "unat (used (snd (alloc_short_slab cfg4_release self0 st_init 3))) = 1"
    by (simp only: e3)
  obtain a t' where
    r: "dealloc_short_slab cfg4_release st_short = Inr (a, t')"
    and h: "head t' = head st_short"
    and m: "meta t' = meta st_short"
    and u: "unat (used t') + 1 = unat (used st_short)"
    using t nd od by blast
  have h1: "head t' = 1" using h by (simp only: e5)
  have u1: "unat (used t') + 1 = 1" using u by (simp only: e4)
  have d: "\<not> NDEBUG cfg4" by code_simp
  have f: "\<not> is_unused (meta_at cfg4 st_short 0)" by code_simp
  note t2 = short_slab_ops_frame [OF ev, where c = cfg4 and self = self0 and sc = 3
                                         and t = st_short]
  have c4: "dealloc_short_slab cfg4 st_short = Inl AssertFailed" using t2 d f by blast
  show ?thesis using ev od n nd c1 c2 c3 r h1 m u1 d f c4 by blast
qed

section \<open>The consistency walk of \<^verbatim>\<open>init\<close>\<close>

text \<open>
  The loop of \<^verbatim>\<open>init\<close> is bounded by \<open>SLAB_COUNT - used - 1\<close>, while the chain of a
  state that satisfies the invariant has \<open>SLAB_COUNT - (used >> 1) - 1\<close> slots.  The two
  agree when \<^verbatim>\<open>used\<close> is 0, the value of a header none of whose slabs is handed out,
  which is what the assertions that follow the walk ask of every slot.  As soon as
  \<^verbatim>\<open>used\<close> is not 0 the walk stops short of the end of the chain, on a free slot, and
  a debug build aborts.
\<close>

lemma chain_from_nth_funpow:
  "k < length (chain_from c s fuel x) \<Longrightarrow>
   Mod_read c (((chain_next c s) ^^ k) x) = chain_from c s fuel x ! k"
proof (induction fuel arbitrary: x k)
  case 0
  then show ?case by simp
next
  case (Suc fuel)
  then have nz: "Mod_read c x \<noteq> 0" by (auto split: if_splits)
  show ?case
  proof (cases k)
    case 0
    then show ?thesis using nz by simp
  next
    case (Suc j)
    then have "j < length (chain_from c s fuel (chain_next c s x))"
      using Suc.prems nz by simp
    then have "Mod_read c (((chain_next c s) ^^ j) (chain_next c s x))
               = chain_from c s fuel (chain_next c s x) ! j"
      by (rule Suc.IH)
    then show ?thesis using nz Suc by (simp add: funpow_swap1)
  qed
qed

lemma unat_walk_bound:
  assumes "valid_config c" and "unat (u :: uint16_t) < unat (SLAB_COUNT c)"
  shows "unat (SLAB_COUNT c - ucast u - 1) = unat (SLAB_COUNT c) - unat u - 1"
proof -
  have "unat (ucast u :: size_t) \<le> unat (SLAB_COUNT c - 1)"
    using assms by (simp add: unat_ucast_used unat_SLAB_COUNT_minus_1 unat_SLAB_COUNT)
  then have "(ucast u :: size_t) \<le> SLAB_COUNT c - 1" by (simp add: word_le_nat_alt)
  then have "unat (SLAB_COUNT c - 1 - ucast u) = unat (SLAB_COUNT c - 1) - unat (ucast u :: size_t)"
    by (rule unat_sub)
  then have e: "unat (SLAB_COUNT c - 1 - ucast u) = unat (SLAB_COUNT c) - unat u - 1"
    using assms(1) by (simp add: unat_ucast_used unat_SLAB_COUNT_minus_1 unat_SLAB_COUNT)
  have "SLAB_COUNT c - ucast u - 1 = SLAB_COUNT c - 1 - ucast u" by simp
  then show ?thesis by (simp only: e)
qed

lemma funpow_chain_cong:
  assumes "\<And>x. chain_next c s x = chain_next c s' x"
  shows "((chain_next c s) ^^ k) cur = ((chain_next c s') ^^ k) cur"
  by (induction k) (simp_all add: assms)

lemma debug_walk_allocator:
  "debug_walk c (s\<lparr> allocator := a \<rparr>) = debug_walk c s"
proof -
  have step: "chain_next c (s\<lparr> allocator := a \<rparr>) x = chain_next c s x" for x
    by (simp add: chain_next_def meta_at_def)
  show ?thesis
    unfolding debug_walk_def using funpow_chain_cong [of c "s\<lparr> allocator := a \<rparr>" s, OF step]
    by simp
qed

lemma debug_walk_when_used:
  assumes v: "valid_config c" and inv: "free_list_inv c s"
    and u0: "0 < unat (used s)" and uN: "unat (used s) < unat (SLAB_COUNT c)"
  shows "Mod_read c (debug_walk c s) \<noteq> 0"
proof -
  let ?N = "unat (SLAB_COUNT c)"
  let ?k = "?N - unat (used s) - 1"
  have fl: "length (free_chain c s) + unat (used s) div 2 + 1 = ?N"
    using inv by (simp add: free_list_inv_nat)
  have lt: "?k < length (free_chain c s)" using fl u0 uN by simp
  have "debug_walk c s = ((chain_next c s) ^^ ?k) (head s)"
    unfolding debug_walk_def by (simp add: unat_walk_bound [OF v uN])
  moreover have "Mod_read c (((chain_next c s) ^^ ?k) (head s)) = free_chain c s ! ?k"
    using lt unfolding free_chain_def by (rule chain_from_nth_funpow)
  moreover have "free_chain c s ! ?k \<in> set (free_chain c s)" using lt by (rule nth_mem)
  then have "free_chain c s ! ?k \<noteq> 0"
    unfolding free_chain_def using chain_from_members [OF v] by blast
  ultimately show ?thesis by simp
qed

lemma init_aborts_when_used:
  assumes v: "valid_config c" and inv: "free_list_inv c s"
    and u0: "0 < unat (used s)" and uN: "unat (used s) < unat (SLAB_COUNT c)"
    and k: "kind s = Super" and sz: "sizeof_Superslab c < OS_PAGE_SIZE c"
    and dbg: "\<not> NDEBUG c"
  shows "init c s a = Inl Abort"
proof -
  have "Mod_read c (debug_walk c (s\<lparr> allocator := a \<rparr>)) \<noteq> 0"
    unfolding debug_walk_allocator by (rule debug_walk_when_used [OF v inv u0 uN])
  moreover have "\<not> OS_PAGE_SIZE c \<le> sizeof_Superslab c" using sz by simp
  ultimately show ?thesis using k dbg by (simp add: init_def Let_def)
qed

lemma debug_walk_when_empty:
  assumes v: "valid_config c" and inv: "free_list_inv c s" and u: "used s = 0"
  shows "Mod_read c (debug_walk c s) = 0"
proof -
  have "Mod_read c (((chain_next c s) ^^ (unat (SLAB_COUNT c) - unat (drop_bit 1 (used s)) - 1))
                      (head s)) = 0"
    by (rule free_list_inv_walk [OF v inv])
  moreover have "unat (SLAB_COUNT c - ucast (used s) - 1)
                 = unat (SLAB_COUNT c) - unat (drop_bit 1 (used s)) - 1"
    by (simp add: u unat_SLAB_COUNT_minus_1 [OF v] unat_SLAB_COUNT [OF v])
  ultimately show ?thesis unfolding debug_walk_def by simp
qed

lemma init_passes_when_empty:
  assumes v: "valid_config c" and inv: "free_list_inv c s" and u: "used s = 0"
    and k: "kind s = Super" and sz: "sizeof_Superslab c < OS_PAGE_SIZE c"
    and un: "list_all is_unused (meta s)"
  shows "init c s a = Inr (s\<lparr> allocator := a \<rparr>)"
proof -
  let ?s1 = "s\<lparr> allocator := a \<rparr>"
  have len: "length (meta s) = unat (SLAB_COUNT c)" using inv by (simp add: free_list_inv_def)
  have w: "Mod_read c (debug_walk c ?s1) = 0"
    unfolding debug_walk_allocator by (rule debug_walk_when_empty [OF v inv u])
  have "is_unused (meta_at c ?s1 (of_nat i))" if "i < unat (SLAB_COUNT c)" for i
    using that un len
    by (simp add: meta_at_def ModArray_index_of_nat [OF v] list_all_length)
  then have a: "list_all (\<lambda>i. is_unused (meta_at c ?s1 (of_nat i))) [0 ..< unat (SLAB_COUNT c)]"
    by (simp add: list_all_iff)
  have "\<not> OS_PAGE_SIZE c \<le> sizeof_Superslab c" using sz by simp
  then show ?thesis using k w a by (simp add: init_def Let_def assert_loop)
qed

text \<open>
  Claim C8, as stated, at a concrete input.  In the four-slot configuration, after one
  regular slab has been handed out (\<^verbatim>\<open>used = 2\<close>, \<^verbatim>\<open>head = 2\<close>), the free-list and the
  used-encoding invariants hold and \<open>SLAB_COUNT - (used >> 1) - 1 = 2\<close> steps do reach
  slot 0, yet the walk of \<^verbatim>\<open>init\<close> takes \<open>SLAB_COUNT - used - 1 = 1\<close> step, stands on
  slot 3 and the check aborts.
\<close>

theorem init_walk_bound_counterexample:
  "free_list_inv cfg4 st_one_alloc \<and> used_inv cfg4 st_one_alloc \<and>
   kind st_one_alloc = Super \<and> head st_one_alloc = 2 \<and> used st_one_alloc = 2 \<and>
   unat (SLAB_COUNT cfg4) - unat (drop_bit 1 (used st_one_alloc)) - 1 = 2 \<and>
   Mod_read cfg4 (((chain_next cfg4 st_one_alloc) ^^ 2) (head st_one_alloc)) = 0 \<and>
   unat (SLAB_COUNT cfg4 - ucast (used st_one_alloc) - 1) = 1 \<and>
   debug_walk cfg4 st_one_alloc = ((chain_next cfg4 st_one_alloc) ^^ 1) (head st_one_alloc) \<and>
   Mod_read cfg4 (debug_walk cfg4 st_one_alloc) = 3 \<and>
   init cfg4 st_one_alloc 7 = Inl Abort"
  by code_simp

text \<open>
  Claim C8, amended.  For every state that satisfies the free-list invariant (and with it
  the used-encoding invariant) and in which no slab is handed out (\<^verbatim>\<open>used\<close> is 0, as
  the assertions of \<^verbatim>\<open>init\<close> that every slot is unused require), the walk of \<^verbatim>\<open>init\<close>
  takes \<open>SLAB_COUNT - used - 1\<close> steps, which is \<open>SLAB_COUNT - (used >> 1) - 1\<close>, and
  lands on slot 0; \<^verbatim>\<open>init\<close> on a superslab header smaller than a page whose slots
  are all unused passes the check and returns, having set the owner only.
\<close>

theorem init_walk_lands_on_slot_0:
  assumes "valid_config c" and "free_list_inv c s" and "used s = 0"
  shows "used_inv c s \<and>
         unat (SLAB_COUNT c - ucast (used s) - 1)
           = unat (SLAB_COUNT c) - unat (drop_bit 1 (used s)) - 1 \<and>
         debug_walk c s
           = ((chain_next c s) ^^ (unat (SLAB_COUNT c) - unat (drop_bit 1 (used s)) - 1))
               (head s) \<and>
         Mod_read c (debug_walk c s) = 0 \<and>
         (kind s = Super \<and> sizeof_Superslab c < OS_PAGE_SIZE c \<and>
          list_all is_unused (meta s) \<longrightarrow>
            init c s a = Inr (s\<lparr> allocator := a \<rparr>))"
proof -
  have i: "used_inv c s" by (rule free_list_inv_used_inv [OF assms(2)])
  have e1: "unat (SLAB_COUNT c - ucast (used s) - 1)
              = unat (SLAB_COUNT c) - unat (drop_bit 1 (used s)) - 1"
    using assms(3)
    by (simp add: unat_SLAB_COUNT_minus_1 [OF assms(1)] unat_SLAB_COUNT [OF assms(1)])
  have w: "debug_walk c s
             = ((chain_next c s) ^^ (unat (SLAB_COUNT c) - unat (drop_bit 1 (used s)) - 1))
                 (head s)"
    unfolding debug_walk_def by (simp only: e1)
  have e2: "Mod_read c (debug_walk c s) = 0"
    by (rule debug_walk_when_empty [OF assms])
  have e3: "init c s a = Inr (s\<lparr> allocator := a \<rparr>)"
    if "kind s = Super" and "sizeof_Superslab c < OS_PAGE_SIZE c"
      and "list_all is_unused (meta s)"
    using that by (rule init_passes_when_empty [OF assms])
  show ?thesis using i e1 w e2 e3 by blast
qed

theorem init_walk_lands_on_slot_0_witness:
  "valid_config cfg4 \<and> free_list_inv cfg4 st_init \<and> used st_init = 0 \<and>
   kind st_init = Super \<and> sizeof_Superslab cfg4 < OS_PAGE_SIZE cfg4 \<and>
   list_all is_unused (meta st_init) \<and> \<not> NDEBUG cfg4 \<and>
   unat (SLAB_COUNT cfg4 - ucast (used st_init) - 1) = 3 \<and>
   Mod_read cfg4 (debug_walk cfg4 st_init) = 0 \<and>
   init cfg4 st_init 9 = Inr (st_init\<lparr> allocator := 9 \<rparr>)"
proof -
  have v: "valid_config cfg4" by code_simp
  have i: "free_list_inv cfg4 st_init" by code_simp
  have u: "used st_init = 0" by code_simp
  have k: "kind st_init = Super" by code_simp
  have z: "sizeof_Superslab cfg4 < OS_PAGE_SIZE cfg4" by (simp add: cfg4_def)
  have un: "list_all is_unused (meta st_init)" by code_simp
  have d: "\<not> NDEBUG cfg4" by code_simp
  note t = init_walk_lands_on_slot_0 [OF v i u, where a = 9]
  have e: "unat (SLAB_COUNT cfg4) - unat (drop_bit 1 (used st_init)) - 1 = 3" by code_simp
  have "unat (SLAB_COUNT cfg4 - ucast (used st_init) - 1)
          = unat (SLAB_COUNT cfg4) - unat (drop_bit 1 (used st_init)) - 1"
    using t by blast
  then have c1: "unat (SLAB_COUNT cfg4 - ucast (used st_init) - 1) = 3" by (simp only: e)
  have c2: "Mod_read cfg4 (debug_walk cfg4 st_init) = 0" using t by blast
  have c3: "init cfg4 st_init 9 = Inr (st_init\<lparr> allocator := 9 \<rparr>)"
    using t k z un by blast
  show ?thesis using v i u k z un d c1 c2 c3 by blast
qed

section \<open>Short size classes and the threshold\<close>

text \<open>
  Claim C9.  \<^verbatim>\<open>is_short_sizeclass\<close> holds exactly for the classes strictly below the
  threshold class \<^verbatim>\<open>size_to_sizeclass_const(SLAB_SIZE - sizeof(Superslab))\<close>.  Every
  class it accepts has an object size strictly below \<^verbatim>\<open>SLAB_SIZE - sizeof(Superslab)\<close>;
  every class whose object size reaches that bound is rejected, and so is the threshold
  class itself.
\<close>

theorem is_short_sizeclass_threshold:
  assumes "length sizes < 2 ^ 64"
  shows "(is_short_sizeclass c sizes sc \<longleftrightarrow>
            sc < size_to_sizeclass_const sizes (SLAB_SIZE c - sizeof_Superslab c)) \<and>
         (is_short_sizeclass c sizes sc \<longrightarrow>
            unat sc < length sizes \<and>
            sizes ! unat sc < unat (SLAB_SIZE c - sizeof_Superslab c)) \<and>
         (unat sc < length sizes \<and>
          unat (SLAB_SIZE c - sizeof_Superslab c) \<le> sizes ! unat sc \<longrightarrow>
            \<not> is_short_sizeclass c sizes sc) \<and>
         \<not> is_short_sizeclass c sizes
             (size_to_sizeclass_const sizes (SLAB_SIZE c - sizeof_Superslab c))"
proof -
  let ?F = "unat (SLAB_SIZE c - sizeof_Superslab c)"
  let ?tw = "takeWhile (\<lambda>n. n < ?F) sizes"
  have le: "length ?tw \<le> length sizes" by (rule length_takeWhile_le)
  then have "length ?tw < 2 ^ 64" using assms by simp
  then have h: "unat (size_to_sizeclass_const sizes (SLAB_SIZE c - sizeof_Superslab c)) = length ?tw"
    unfolding size_to_sizeclass_const_def by (rule unat_of_nat_len64)
  have iff: "is_short_sizeclass c sizes sc \<longleftrightarrow> unat sc < length ?tw"
    by (simp add: is_short_sizeclass_def Let_def word_less_nat_alt h)
  have small: "sizes ! unat sc < ?F" if "unat sc < length ?tw"
  proof -
    have "?tw ! unat sc \<in> set ?tw" using that by (rule nth_mem)
    then have "?tw ! unat sc < ?F" by (rule set_takeWhileD [THEN conjunct2])
    then show ?thesis using that by (simp add: takeWhile_nth)
  qed
  have 1: "is_short_sizeclass c sizes sc \<longleftrightarrow>
            sc < size_to_sizeclass_const sizes (SLAB_SIZE c - sizeof_Superslab c)"
    by (simp add: is_short_sizeclass_def Let_def)
  have 2: "is_short_sizeclass c sizes sc \<longrightarrow>
            unat sc < length sizes \<and> sizes ! unat sc < ?F"
    using le small by (auto simp add: iff)
  have 3: "unat sc < length sizes \<and> ?F \<le> sizes ! unat sc \<longrightarrow> \<not> is_short_sizeclass c sizes sc"
    using small by (auto simp add: iff)
  have 4: "\<not> is_short_sizeclass c sizes
             (size_to_sizeclass_const sizes (SLAB_SIZE c - sizeof_Superslab c))"
    by (simp add: is_short_sizeclass_def Let_def)
  show ?thesis using 1 2 3 4 by blast
qed

theorem is_short_sizeclass_threshold_witness:
  "length class_sizes < 2 ^ 64 \<and>
   is_short_sizeclass cfg4 class_sizes 9 \<and>
   class_sizes ! unat (9 :: sizeclass_t) < unat (SLAB_SIZE cfg4 - sizeof_Superslab cfg4) \<and>
   unat (10 :: sizeclass_t) < length class_sizes \<and>
   unat (SLAB_SIZE cfg4 - sizeof_Superslab cfg4) \<le> class_sizes ! unat (10 :: sizeclass_t) \<and>
   \<not> is_short_sizeclass cfg4 class_sizes 10"
proof -
  have l: "length class_sizes < 2 ^ 64" by (simp add: class_sizes_def)
  have f: "unat (SLAB_SIZE cfg4 - sizeof_Superslab cfg4) = 16128"
    by (simp add: cfg4_def SLAB_SIZE_def)
  have s: "is_short_sizeclass cfg4 class_sizes 9"
    by (simp add: is_short_sizeclass_def size_to_sizeclass_const_def class_sizes_def f Let_def)
  have b: "unat (10 :: sizeclass_t) < length class_sizes" by (simp add: class_sizes_def)
  have g: "unat (SLAB_SIZE cfg4 - sizeof_Superslab cfg4) \<le> class_sizes ! unat (10 :: sizeclass_t)"
    by (simp add: f class_sizes_def)
  have c1: "class_sizes ! unat (9 :: sizeclass_t) < unat (SLAB_SIZE cfg4 - sizeof_Superslab cfg4)"
    using is_short_sizeclass_threshold [OF l, where c = cfg4 and sc = 9] s by blast
  have c2: "\<not> is_short_sizeclass cfg4 class_sizes 10"
    using is_short_sizeclass_threshold [OF l, where c = cfg4 and sc = 10] b g by blast
  show ?thesis using l s b g c1 c2 by blast
qed

section \<open>The action signal\<close>

text \<open>
  Claim C10.  In a state whose \<^verbatim>\<open>used\<close> is within its range, a \<^verbatim>\<open>dealloc_slab\<close> with
  a regular slab outstanding, and a \<^verbatim>\<open>dealloc_short_slab\<close> with the short slab in use,
  return whenever the slab pointer resolves to a slot and that slot is unused (in a
  release build: always), and when they return they answer \<^verbatim>\<open>StatusChange\<close> exactly
  when \<^verbatim>\<open>get_status\<close> after the call differs from \<^verbatim>\<open>get_status\<close> before it, and
  \<^verbatim>\<open>NoStatusChange\<close> exactly when it is the same.
\<close>

theorem dealloc_action_iff_status_differs:
  assumes "valid_config c" and "used_inv c s"
  shows "(2 \<le> unat (used s) \<longrightarrow>
           (NDEBUG c \<longrightarrow> (\<exists>a s'. dealloc_slab c this s slab = Inr (a, s'))) \<and>
           (\<forall>i. slab_to_index c this slab = Inr i \<and> is_unused (meta_at c s i) \<longrightarrow>
                (\<exists>a s'. dealloc_slab c this s slab = Inr (a, s'))) \<and>
           (\<forall>a s'. dealloc_slab c this s slab = Inr (a, s') \<longrightarrow>
              (a = StatusChange \<longleftrightarrow> get_status c s' \<noteq> get_status c s) \<and>
              (a = NoStatusChange \<longleftrightarrow> get_status c s' = get_status c s))) \<and>
         (odd (unat (used s)) \<longrightarrow>
           (NDEBUG c \<or> is_unused (meta_at c s 0) \<longrightarrow>
              (\<exists>a s'. dealloc_short_slab c s = Inr (a, s'))) \<and>
           (\<forall>a s'. dealloc_short_slab c s = Inr (a, s') \<longrightarrow>
              (a = StatusChange \<longleftrightarrow> get_status c s' \<noteq> get_status c s) \<and>
              (a = NoStatusChange \<longleftrightarrow> get_status c s' = get_status c s)))"
proof -
  define N :: nat where "N = 2 ^ SLAB_COUNT_BITS c"
  define u where "u = unat (used s)"
  have N2: "2 \<le> N" using pow_bits_ge [OF assms(1)] by (simp add: N_def)
  have ub: "u \<le> 2 * (N - 1) + 1"
    using assms(2) by (simp add: used_inv_def unat_SLAB_COUNT [OF assms(1)] N_def u_def)
  have ret1: "\<exists>a s'. dealloc_slab c this s slab = Inr (a, s')" if nd: "NDEBUG c"
  proof -
    obtain i where i: "slab_to_index c this slab = Inr i"
      using slab_to_index_NDEBUG [OF nd] by blast
    have "\<exists>r. dealloc_slab c this s slab = Inr r"
      using dealloc_slab_returns [OF i] nd by blast
    then show ?thesis by auto
  qed
  have ret2: "\<exists>a s'. dealloc_slab c this s slab = Inr (a, s')"
    if i: "slab_to_index c this slab = Inr i" and un: "is_unused (meta_at c s i)" for i
  proof -
    have "\<exists>r. dealloc_slab c this s slab = Inr r"
      using dealloc_slab_returns [OF i] un by blast
    then show ?thesis by auto
  qed
  have slab: "(a = StatusChange \<longleftrightarrow> get_status c s' \<noteq> get_status c s) \<and>
              (a = NoStatusChange \<longleftrightarrow> get_status c s' = get_status c s)"
    if ge: "2 \<le> u" and r: "dealloc_slab c this s slab = Inr (a, s')" for a s'
  proof -
    have us: "used s' = used s - 2"
      and act: "a = (if is_almost_full c s \<or> is_empty s' then StatusChange else NoStatusChange)"
      using dealloc_slab_returned [OF r] by simp_all
    have "unat (used s - of_nat 2) = unat (used s) - 2"
      using ge unfolding u_def by (rule unat_used_minus)
    then have u': "unat (used s') = u - 2"
      by (simp add: us u_def)
    have "a = StatusChange \<longleftrightarrow> get_status c s' \<noteq> get_status c s"
      unfolding act get_status_nat [OF assms(1)] is_almost_full_iff [OF assms(1)]
        is_empty_iff u' N_def [symmetric] u_def [symmetric]
      using ge ub N2 by auto
    moreover have "a = NoStatusChange \<longleftrightarrow> get_status c s' = get_status c s"
      unfolding act get_status_nat [OF assms(1)] is_almost_full_iff [OF assms(1)]
        is_empty_iff u' N_def [symmetric] u_def [symmetric]
      using ge ub N2 by auto
    ultimately show ?thesis by blast
  qed
  have ret3: "\<exists>a s'. dealloc_short_slab c s = Inr (a, s')"
    if "NDEBUG c \<or> is_unused (meta_at c s 0)"
    using that dealloc_short_slab_char [of c s] by auto
  have short: "(a = StatusChange \<longleftrightarrow> get_status c s' \<noteq> get_status c s) \<and>
               (a = NoStatusChange \<longleftrightarrow> get_status c s' = get_status c s)"
    if od: "odd u" and r: "dealloc_short_slab c s = Inr (a, s')" for a s'
  proof -
    obtain b t where
      e: "dealloc_short_slab c s =
            (if \<not> NDEBUG c \<and> \<not> is_unused (meta_at c s 0)
             then Inl AssertFailed else Inr (b, t))"
      and b: "b = (if is_full c s \<or> is_empty t then StatusChange else NoStatusChange)"
      and t: "t = s\<lparr> used := used s - 1 \<rparr>"
      using dealloc_short_slab_char [of c s] by blast
    have eq: "a = b \<and> s' = t" using r unfolding e by (auto split: if_splits)
    have act: "a = (if is_full c s \<or> is_empty s' then StatusChange else NoStatusChange)"
      using eq b by simp
    have us: "used s' = used s - 1" using eq t by simp
    have ge: "1 \<le> u" using od by (cases u) simp_all
    have "unat (used s - of_nat 1) = unat (used s) - 1"
      using ge unfolding u_def by (rule unat_used_minus)
    then have u': "unat (used s') = u - 1"
      by (simp add: us u_def)
    have "a = StatusChange \<longleftrightarrow> get_status c s' \<noteq> get_status c s"
      unfolding act get_status_nat [OF assms(1)] is_full_iff [OF assms(1)]
        is_empty_iff u' N_def [symmetric] u_def [symmetric]
      using ge ub N2 od by (auto elim: oddE)
    moreover have "a = NoStatusChange \<longleftrightarrow> get_status c s' = get_status c s"
      unfolding act get_status_nat [OF assms(1)] is_full_iff [OF assms(1)]
        is_empty_iff u' N_def [symmetric] u_def [symmetric]
      using ge ub N2 od by (auto elim: oddE)
    ultimately show ?thesis by blast
  qed
  show ?thesis using ret1 ret2 slab ret3 short unfolding u_def by blast
qed

theorem dealloc_action_iff_status_differs_witness:
  "valid_config cfg4_release \<and> used_inv cfg4_release st_full \<and>
   2 \<le> unat (used st_full) \<and> odd (unat (used st_full)) \<and> NDEBUG cfg4_release \<and>
   (\<exists>a s'. dealloc_slab cfg4_release self0 st_full
               (self0 + push_bit (SLAB_BITS cfg4_release) 3) = Inr (a, s') \<and>
            a = StatusChange \<and>
            get_status cfg4_release s' \<noteq> get_status cfg4_release st_full) \<and>
   (\<exists>a s'. dealloc_short_slab cfg4_release st_full = Inr (a, s') \<and>
            a = StatusChange \<and>
            get_status cfg4_release s' \<noteq> get_status cfg4_release st_full)"
proof -
  let ?c = "cfg4_release"
  let ?slab = "self0 + push_bit (SLAB_BITS cfg4_release) 3"
  have v: "valid_config ?c" by code_simp
  have u: "used_inv ?c st_full" by code_simp
  have g: "2 \<le> unat (used st_full)" by code_simp
  have o: "odd (unat (used st_full))" by code_simp
  have nd: "NDEBUG ?c" by code_simp
  note t = dealloc_action_iff_status_differs [OF v u, where this = self0 and slab = ?slab]
  have a3: "map_sum id fst (dealloc_slab ?c self0 st_full ?slab) = Inr StatusChange"
    by code_simp
  have a0: "map_sum id fst (dealloc_short_slab ?c st_full) = Inr StatusChange" by code_simp
  obtain a s' where r3: "dealloc_slab ?c self0 st_full ?slab = Inr (a, s')"
    using t g nd by blast
  have b3: "a = StatusChange" using a3 unfolding r3 by simp
  have c3: "get_status ?c s' \<noteq> get_status ?c st_full" using t g r3 b3 by blast
  obtain b t' where r0: "dealloc_short_slab ?c st_full = Inr (b, t')"
    using t o nd by blast
  have b0: "b = StatusChange" using a0 unfolding r0 by simp
  have c0: "get_status ?c t' \<noteq> get_status ?c st_full" using t o r0 b0 by blast
  show ?thesis using v u g o nd r3 b3 c3 r0 b0 c0 by blast
qed

end
